theory Spec2Isabelle
  imports Main "HOL-Library.Word"
begin

unbundle bit_operations_syntax

section \<open>Pseudo probe encoding and decoding (llvm/lib/MC/MCPseudoProbe.cpp)\<close>

subsection \<open>Machine types\<close>

type_synonym uint8_t = "8 word"
type_synonym uint32_t = "32 word"
type_synonym uint64_t = "64 word"
type_synonym int64_t = "64 word"

text \<open>
  \<open>InlineSite\<close> is \<open>std::tuple<uint64_t, uint32_t>\<close>: element 0 is the GUID of a
  function, element 1 the index of the call-site probe (\<open>InlineSite(Probe.getGuid(), 0)\<close>,
  \<open>std::get<1>(Inlinee.first)\<close> is emitted as the probe index).
\<close>

type_synonym InlineSite = "uint64_t \<times> uint32_t"

text \<open>\<open>std::tuple\<close>'s \<open>operator<\<close>: lexicographic, element 0 first.\<close>

fun InlineSite_less :: "InlineSite \<Rightarrow> InlineSite \<Rightarrow> bool" where
  "InlineSite_less (g1, i1) (g2, i2) = (g1 < g2 \<or> (g1 = g2 \<and> i1 < i2))"

subsection \<open>The byte cursor of the decoder\<close>

text \<open>
  Little-endian reading of a fixed-width value: \<open>endian::readNext<T, little, unaligned>\<close>.
\<close>

fun readNext_le :: "uint8_t list \<Rightarrow> 'a::len word" where
  "readNext_le [] = 0"
| "readNext_le (b # bs) = ucast b OR push_bit 8 (readNext_le bs)"

text \<open>
  Modelled from the spec: \<open>llvm/Support/LEB128.h\<close> is not among the sources.
  \<open>decodeULEB128 p\<close> decodes the ULEB128 value that starts at \<open>p\<close> and returns it with
  the number of bytes read (\<open>NumBytesRead\<close>). The value is the number the encoding
  denotes, seven bits a byte, lowest first; it is not cut to 64 bits, so that the range
  test of \<open>readUnsignedNumber\<close> fails on every value that exceeds the target type, as the
  specification has it ("fails if the decoded value exceeds \<open>T\<close>'s max or if decoding ran
  off the end"). The decoder calls it without an end pointer; the bytes given here are
  those up to \<open>End\<close>, and for an encoding that is not terminated inside them the count
  returned exceeds their number, which the caller's bound test turns into a failed read.
\<close>

fun decodeULEB128 :: "uint8_t list \<Rightarrow> nat \<times> nat" where
  "decodeULEB128 [] = (0, 1)"
| "decodeULEB128 (b # bs) =
     (if 128 \<le> b
      then (case decodeULEB128 bs of (v, n) \<Rightarrow> (unat (b AND 0x7f) + 128 * v, Suc n))
      else (unat b, 1))"

text \<open>
  Modelled from the spec: \<open>decodeSLEB128\<close> of the same absent header. The value is the
  signed number the encoding denotes: bit 6 of the last byte is the sign.
\<close>

fun decodeSLEB128 :: "uint8_t list \<Rightarrow> int \<times> nat" where
  "decodeSLEB128 [] = (0, 1)"
| "decodeSLEB128 (b # bs) =
     (if 128 \<le> b
      then (case decodeSLEB128 bs of (v, n) \<Rightarrow> (uint (b AND 0x7f) + 128 * v, Suc n))
      else (if b AND 0x40 \<noteq> 0 then uint b - 128 else uint b, 1))"

subsection \<open>Decoder data\<close>

record MCPseudoProbeFuncDesc =
  FuncGUID :: uint64_t
  FuncHash :: uint64_t
  FuncName :: "uint8_t list"

text \<open>
  A decoded probe. \<open>InlineTree\<close> is the pointer to the probe's inline tree node: the
  index of the node in the decoder's node store.
\<close>

record MCDecodedPseudoProbe =
  Address :: uint64_t
  ProbeGuid :: uint64_t
  ProbeIndex :: uint32_t
  ProbeType :: uint8_t
  ProbeAttributes :: uint8_t
  InlineTree :: nat

text \<open>
  A node of the decoded inline tree (\<open>MCDecodedPseudoProbeInlineTree\<close>). Nodes live in a
  store (a list) and point to each other by index: \<open>Parent\<close> is the non-owning pointer to
  the caller node (\<open>None\<close> while it was never assigned), \<open>Children\<close> maps an inline site
  to the child's index, \<open>Probes\<close> holds the pointers into the address map (the address
  and the position in that address's list).
\<close>

record MCDecodedPseudoProbeInlineTree =
  Guid :: uint64_t
  ISite :: InlineSite
  Parent :: "nat option"
  Children :: "(InlineSite \<times> nat) list"
  Probes :: "(uint64_t \<times> nat) list"

text \<open>
  The decoder object. \<open>Buf\<close> is the byte range handed to the current build function,
  \<open>Data\<close> and \<open>End\<close> are the two cursors as offsets from \<open>Start\<close>. \<open>Nodes ! 0\<close> is
  \<open>DummyInlineRoot\<close>.
\<close>

record MCPseudoProbeDecoder =
  Buf :: "uint8_t list"
  Data :: nat
  End :: nat
  GUID2FuncDescMap :: "uint64_t \<rightharpoonup> MCPseudoProbeFuncDesc"
  Address2ProbesMap :: "uint64_t \<rightharpoonup> MCDecodedPseudoProbe list"
  Nodes :: "MCDecodedPseudoProbeInlineTree list"

definition DummyInlineRoot :: nat where
  "DummyInlineRoot = 0"

definition new_node :: "InlineSite \<Rightarrow> MCDecodedPseudoProbeInlineTree" where
  "new_node Site = \<lparr>Guid = 0, ISite = Site, Parent = None, Children = [], Probes = []\<rparr>"

text \<open>A default-constructed decoder: empty maps, a root without children or probes.\<close>

definition new_decoder :: MCPseudoProbeDecoder where
  "new_decoder = \<lparr>Buf = [], Data = 0, End = 0, GUID2FuncDescMap = Map.empty,
     Address2ProbesMap = Map.empty, Nodes = [new_node (0, 0)]\<rparr>"

subsection \<open>Read primitives\<close>

text \<open>
  \<open>ErrorOr<T>\<close> is an option: \<open>None\<close> is the returned \<open>std::error_code()\<close>. Each
  primitive returns its result together with the decoder, whose \<open>Data\<close> it may have moved.
\<close>

definition readUnencodedNumber ::
  "MCPseudoProbeDecoder \<Rightarrow> 'a::len word option \<times> MCPseudoProbeDecoder" where
  "readUnencodedNumber d =
     (let sz = LENGTH('a) div 8 in
      if Data d + sz > End d then (None, d)
      else (Some (readNext_le (take sz (drop (Data d) (Buf d)))), d\<lparr>Data := Data d + sz\<rparr>))"

definition readUnsignedNumber ::
  "MCPseudoProbeDecoder \<Rightarrow> 'a::len word option \<times> MCPseudoProbeDecoder" where
  "readUnsignedNumber d =
     (case decodeULEB128 (drop (Data d) (take (End d) (Buf d))) of (Val, NumBytesRead) \<Rightarrow>
        if Val > 2 ^ LENGTH('a) - 1 \<or> Data d + NumBytesRead > End d then (None, d)
        else (Some (of_nat Val), d\<lparr>Data := Data d + NumBytesRead\<rparr>))"

text \<open>
  The target type of \<open>readSignedNumber\<close> is signed: its maximum is \<open>2 ^ (w - 1) - 1\<close>.
  Only the maximum is tested; \<open>static_cast<T>\<close> is the conversion to the word.
\<close>

definition readSignedNumber ::
  "MCPseudoProbeDecoder \<Rightarrow> 'a::len word option \<times> MCPseudoProbeDecoder" where
  "readSignedNumber d =
     (case decodeSLEB128 (drop (Data d) (take (End d) (Buf d))) of (Val, NumBytesRead) \<Rightarrow>
        if Val > 2 ^ (LENGTH('a) - 1) - 1 \<or> Data d + NumBytesRead > End d then (None, d)
        else (Some (of_int Val), d\<lparr>Data := Data d + NumBytesRead\<rparr>))"

definition readString ::
  "nat \<Rightarrow> MCPseudoProbeDecoder \<Rightarrow> uint8_t list option \<times> MCPseudoProbeDecoder" where
  "readString Size d =
     (let Str = take Size (drop (Data d) (Buf d)) in
      if Data d + Size > End d then (None, d)
      else (Some Str, d\<lparr>Data := Data d + Size\<rparr>))"

subsection \<open>Probes on the encoder side\<close>

type_synonym MCSymbol = nat
type_synonym MCSection = nat

text \<open>
  \<open>MCPseudoProbe\<close>: the fields behind \<open>getLabel\<close>, \<open>getGuid\<close>, \<open>getIndex\<close>, and the
  two \<open>uint8_t\<close> fields \<open>Type\<close> and \<open>Attributes\<close>.
\<close>

record MCPseudoProbe =
  getLabel :: MCSymbol
  getGuid :: uint64_t
  getIndex :: uint64_t
  getType :: uint8_t
  getAttributes :: uint8_t

text \<open>What the object streamer is asked to emit, in order.\<close>

datatype MCItem =
    ULEB128IntValue uint64_t
  | SLEB128IntValue int64_t
  | Int8 uint8_t
  | Int64 uint64_t
  | SymbolValue MCSymbol nat
  | MCPseudoProbeAddrFragment MCSymbol MCSymbol
  | SwitchSection MCSection

text \<open>
  The collaborators of the emitter: whether the assembler folds the difference of two
  labels to a constant (\<open>evaluateAsAbsolute\<close> on \<open>buildSymbolDiff A B\<close>), the code pointer
  size, and the section an output-section key resolves to.
\<close>

record MCObjectStreamer =
  evaluateAsAbsolute :: "MCSymbol \<Rightarrow> MCSymbol \<Rightarrow> int64_t option"
  getCodePointerSize :: nat
  getPseudoProbeSection :: "MCSection \<Rightarrow> MCSection option"
  Emitted :: "MCItem list"

definition emitItem :: "MCItem \<Rightarrow> MCObjectStreamer \<Rightarrow> MCObjectStreamer" where
  "emitItem x MCOS = MCOS\<lparr>Emitted := Emitted MCOS @ [x]\<rparr>"

text \<open>\<open>MCPseudoProbeFlag::AddressDelta\<close>: "Flag (bit 7, 0 - code address, 1 - address delta)".\<close>

definition AddressDelta :: uint8_t where
  "AddressDelta = 1"

text \<open>
  \<open>MCPseudoProbe::emit\<close>. A failed \<open>assert\<close> is the result \<open>None\<close>.
\<close>

definition MCPseudoProbe_emit ::
  "MCPseudoProbe \<Rightarrow> MCPseudoProbe option \<Rightarrow> MCObjectStreamer \<Rightarrow> MCObjectStreamer option" where
  "MCPseudoProbe_emit P LastProbe MCOS =
     (let MCOS1 = emitItem (ULEB128IntValue (getIndex P)) MCOS in
      if \<not> getType P \<le> 0xF then None
      else if \<not> getAttributes P \<le> 0x7 then None
      else
        let PackedType = getType P OR push_bit 4 (getAttributes P);
            Flag = (case LastProbe of Some L \<Rightarrow> push_bit 7 AddressDelta | None \<Rightarrow> 0);
            MCOS2 = emitItem (Int8 (Flag OR PackedType)) MCOS1
        in (case LastProbe of
              Some L \<Rightarrow>
                (case evaluateAsAbsolute MCOS2 (getLabel P) (getLabel L) of
                   Some Delta \<Rightarrow> Some (emitItem (SLEB128IntValue Delta) MCOS2)
                 | None \<Rightarrow>
                     Some (emitItem (MCPseudoProbeAddrFragment (getLabel P) (getLabel L)) MCOS2))
            | None \<Rightarrow>
                Some (emitItem (SymbolValue (getLabel P) (getCodePointerSize MCOS2)) MCOS2)))"

subsection \<open>The packed byte on the decoder side\<close>

text \<open>
  The three fields \<open>buildAddress2ProbeMap\<close> takes out of the byte \<open>Value\<close>:
  \<open>Kind = Value & 0xf\<close>, \<open>Attr = (Value & 0x70) >> 4\<close>, and the test \<open>Value & 0x80\<close>.
\<close>

definition Kind :: "uint8_t \<Rightarrow> uint8_t" where
  "Kind Value = Value AND 0xf"

definition Attr :: "uint8_t \<Rightarrow> uint8_t" where
  "Attr Value = drop_bit 4 (Value AND 0x70)"

definition isAddressDelta :: "uint8_t \<Rightarrow> bool" where
  "isAddressDelta Value = (Value AND 0x80 \<noteq> 0)"

subsection \<open>Decoding the probe section\<close>

text \<open>
  Modelled from the spec: \<open>getOrAddNode\<close> is declared in \<open>llvm/MC/MCPseudoProbe.h\<close>, which
  is not among the sources. It looks up the child keyed by the inline site, or creates it
  (with that inline site), and makes the node it was called on the child's parent.
\<close>

definition getOrAddNode ::
  "nat \<Rightarrow> InlineSite \<Rightarrow> MCPseudoProbeDecoder \<Rightarrow> nat \<times> MCPseudoProbeDecoder" where
  "getOrAddNode Cur Site d =
     (case map_of (Children (Nodes d ! Cur)) Site of
        Some c \<Rightarrow> (c, d\<lparr>Nodes := (Nodes d)[c := (Nodes d ! c)\<lparr>Parent := Some Cur\<rparr>]\<rparr>)
      | None \<Rightarrow>
          (let c = length (Nodes d);
               CurNode = (Nodes d ! Cur)\<lparr>Children := Children (Nodes d ! Cur) @ [(Site, c)]\<rparr>
           in (c, d\<lparr>Nodes := (Nodes d)[Cur := CurNode] @ [(new_node Site)\<lparr>Parent := Some Cur\<rparr>]\<rparr>)))"

text \<open>\<open>Cur->Guid = Guid\<close>.\<close>

definition setGuid :: "nat \<Rightarrow> uint64_t \<Rightarrow> MCPseudoProbeDecoder \<Rightarrow> MCPseudoProbeDecoder" where
  "setGuid c G d = d\<lparr>Nodes := (Nodes d)[c := (Nodes d ! c)\<lparr>Guid := G\<rparr>]\<rparr>"

text \<open>
  \<open>Address2ProbesMap[Addr]\<close>, \<open>emplace_back\<close> of the decoded probe, and
  \<open>Cur->addProbes(&Probes.back())\<close>.
\<close>

definition addDecodedProbe ::
  "nat \<Rightarrow> uint64_t \<Rightarrow> uint32_t \<Rightarrow> uint8_t \<Rightarrow> uint8_t \<Rightarrow> MCPseudoProbeDecoder \<Rightarrow> MCPseudoProbeDecoder" where
  "addDecodedProbe c Addr Index K A d =
     (let Probes0 = (case Address2ProbesMap d Addr of None \<Rightarrow> [] | Some ps \<Rightarrow> ps);
          P = \<lparr>Address = Addr, ProbeGuid = Guid (Nodes d ! c), ProbeIndex = Index, ProbeType = K,
               ProbeAttributes = A, InlineTree = c\<rparr>;
          CurNode = (Nodes d ! c)\<lparr>Probes := Probes (Nodes d ! c) @ [(Addr, length Probes0)]\<rparr>
      in d\<lparr>Address2ProbesMap := (Address2ProbesMap d)(Addr \<mapsto> Probes0 @ [P]),
           Nodes := (Nodes d)[c := CurNode]\<rparr>)"

text \<open>The address field of a probe record.\<close>

definition readAddress ::
  "uint8_t \<Rightarrow> uint64_t \<Rightarrow> MCPseudoProbeDecoder \<Rightarrow> uint64_t option \<times> MCPseudoProbeDecoder" where
  "readAddress Value LastAddr d =
     (if isAddressDelta Value
      then (case readSignedNumber d of
              (None, d') \<Rightarrow> (None, d')
            | (Some (Offset :: int64_t), d') \<Rightarrow> (Some (LastAddr + Offset), d'))
      else (case readUnencodedNumber d of
              (None, d') \<Rightarrow> (None, d')
            | (Some (A :: int64_t), d') \<Rightarrow> (Some A, d')))"

text \<open>
  One iteration of the loop over the probes of a node. The first component of the result
  is \<open>False\<close> when the iteration executes \<open>return false\<close>; the second is \<open>LastAddr\<close>,
  which the function holds by reference.
\<close>

definition readProbe ::
  "nat option \<Rightarrow> uint64_t \<Rightarrow> MCPseudoProbeDecoder \<Rightarrow> bool \<times> uint64_t \<times> MCPseudoProbeDecoder" where
  "readProbe Cur LastAddr d =
     (case readUnsignedNumber d of
        (None, d1) \<Rightarrow> (False, LastAddr, d1)
      | (Some (Index :: uint32_t), d1) \<Rightarrow>
     (case readUnencodedNumber d1 of
        (None, d2) \<Rightarrow> (False, LastAddr, d2)
      | (Some (Value :: uint8_t), d2) \<Rightarrow>
     (case readAddress Value LastAddr d2 of
        (None, d3) \<Rightarrow> (False, LastAddr, d3)
      | (Some Addr, d3) \<Rightarrow>
          (True, Addr,
           (case Cur of
              Some c \<Rightarrow> addDecodedProbe c Addr Index (Kind Value) (Attr Value) d3
            | None \<Rightarrow> d3)))))"

fun readProbes ::
  "nat \<Rightarrow> nat option \<Rightarrow> uint64_t \<Rightarrow> MCPseudoProbeDecoder \<Rightarrow> bool \<times> uint64_t \<times> MCPseudoProbeDecoder" where
  "readProbes 0 Cur LastAddr d = (True, LastAddr, d)"
| "readProbes (Suc n) Cur LastAddr d =
     (case readProbe Cur LastAddr d of
        (ok, LastAddr', d') \<Rightarrow> if ok then readProbes n Cur LastAddr' d' else (False, LastAddr', d'))"

text \<open>The inline site index: a sequential id under the root, read from the stream otherwise.\<close>

definition readInlineSite ::
  "nat option \<Rightarrow> MCPseudoProbeDecoder \<Rightarrow> uint32_t option \<times> MCPseudoProbeDecoder" where
  "readInlineSite Cur d =
     (if Cur = Some DummyInlineRoot
      then (Some (word_of_nat (length (Children (Nodes d ! DummyInlineRoot)))), d)
      else readUnsignedNumber d)"

text \<open>
  The filter test on a top-level node and the switch to the new tree node; the result is
  the new \<open>Cur\<close>, \<open>None\<close> being the null pointer.
\<close>

definition enterNode ::
  "nat option \<Rightarrow> uint64_t set \<Rightarrow> uint64_t \<Rightarrow> uint32_t \<Rightarrow> MCPseudoProbeDecoder
     \<Rightarrow> nat option \<times> MCPseudoProbeDecoder" where
  "enterNode Cur GuildFilter G Index d =
     (case (if Cur = Some DummyInlineRoot \<and> GuildFilter \<noteq> {} \<and> G \<notin> GuildFilter
            then None else Cur) of
        None \<Rightarrow> (None, d)
      | Some c \<Rightarrow> (case getOrAddNode c (G, Index) d of (c', d') \<Rightarrow> (Some c', setGuid c' G d')))"

text \<open>
  The cursor never moves backwards, it moves only inside the byte range, and the byte
  range stays the same; the recursion
  below terminates because every record that reaches its inlinees has consumed its GUID.
\<close>

definition advances :: "MCPseudoProbeDecoder \<Rightarrow> MCPseudoProbeDecoder \<Rightarrow> bool" where
  "advances d d' \<longleftrightarrow>
     Buf d' = Buf d \<and> End d' = End d \<and> Data d \<le> Data d' \<and>
     (Data d' = Data d \<or> Data d' \<le> End d)"

lemma advances_refl [simp]: "advances d d"
  by (simp add: advances_def)

lemma advances_trans: "advances d d' \<Longrightarrow> advances d' d'' \<Longrightarrow> advances d d''"
  by (auto simp: advances_def)

lemma advances_readUnencodedNumber: "advances d (snd (readUnencodedNumber d))"
  by (simp add: advances_def readUnencodedNumber_def Let_def)

lemma advances_readUnsignedNumber: "advances d (snd (readUnsignedNumber d))"
  by (simp add: advances_def readUnsignedNumber_def split: prod.split)

lemma advances_readSignedNumber: "advances d (snd (readSignedNumber d))"
  by (simp add: advances_def readSignedNumber_def split: prod.split)

lemma advances_readString: "advances d (snd (readString n d))"
  by (simp add: advances_def readString_def Let_def)

lemma readUnencodedNumber_Some:
  "readUnencodedNumber d = (Some (v :: 'a::len word), d') \<Longrightarrow>
     d' = d\<lparr>Data := Data d + LENGTH('a) div 8\<rparr> \<and> Data d + LENGTH('a) div 8 \<le> End d"
  by (auto simp: readUnencodedNumber_def Let_def split: if_splits)

lemma advances_getOrAddNode: "advances d (snd (getOrAddNode c Site d))"
  by (simp add: advances_def getOrAddNode_def Let_def split: option.split)

lemma advances_setGuid: "advances d (setGuid c G d)"
  by (simp add: advances_def setGuid_def)

lemma advances_addDecodedProbe: "advances d (addDecodedProbe c Addr Index K A d)"
  by (simp add: advances_def addDecodedProbe_def Let_def)

lemma advances_enterNode: "advances d (snd (enterNode Cur F G Index d))"
proof -
  have "advances d (setGuid c' G d')" if "getOrAddNode c (G, Index) d = (c', d')" for c c' d'
    using advances_getOrAddNode [of d c "(G, Index)"] advances_setGuid [of d' c' G] that
    by (auto intro: advances_trans)
  then show ?thesis
    by (auto simp: enterNode_def split: option.split prod.split)
qed

lemma advances_readInlineSite: "advances d (snd (readInlineSite Cur d))"
  by (simp add: readInlineSite_def advances_readUnsignedNumber)

lemma advances_readAddress: "advances d (snd (readAddress Value LastAddr d))"
  using advances_readSignedNumber [of d, where 'a = 64]
    advances_readUnencodedNumber [of d, where 'a = 64]
  by (auto simp: readAddress_def split: prod.split option.split)

lemma advances_readProbe: "advances d (snd (snd (readProbe Cur LastAddr d)))"
proof -
  obtain r1 d1 where 1: "(readUnsignedNumber d :: uint32_t option \<times> _) = (r1, d1)"
    by (cases "readUnsignedNumber d :: uint32_t option \<times> _")
  obtain r2 d2 where 2: "(readUnencodedNumber d1 :: uint8_t option \<times> _) = (r2, d2)"
    by (cases "readUnencodedNumber d1 :: uint8_t option \<times> _")
  have a1: "advances d d1" using advances_readUnsignedNumber [of d, where 'a = 32] 1 by simp
  have a2: "advances d1 d2" using advances_readUnencodedNumber [of d1, where 'a = 8] 2 by simp
  have a12: "advances d d2" using a1 a2 by (rule advances_trans)
  show ?thesis
  proof (cases r1)
    case None
    then show ?thesis using 1 a1 by (simp add: readProbe_def)
  next
    case (Some Index)
    note r1 = this
    show ?thesis
    proof (cases r2)
      case None
      then show ?thesis using 1 2 r1 a12 by (simp add: readProbe_def)
    next
      case (Some Value)
      obtain r3 d3 where 3: "readAddress Value LastAddr d2 = (r3, d3)"
        by (cases "readAddress Value LastAddr d2")
      have a3: "advances d d3"
        using advances_trans [OF a12 advances_readAddress [of d2 Value LastAddr]] 3 by simp
      show ?thesis
        using 1 2 3 r1 Some a3 advances_trans [OF a3 advances_addDecodedProbe]
        by (simp add: readProbe_def split: option.split)
    qed
  qed
qed

lemma advances_readProbes: "advances d (snd (snd (readProbes n Cur LastAddr d)))"
proof (induction n arbitrary: LastAddr d)
  case 0
  then show ?case by simp
next
  case (Suc n)
  obtain ok la d' where r: "readProbe Cur LastAddr d = (ok, la, d')"
    by (cases "readProbe Cur LastAddr d") auto
  have "advances d d'" using advances_readProbe [of d Cur LastAddr] r by simp
  then show ?case
    using r Suc [where LastAddr = la and d = d'] by (auto intro: advances_trans)
qed

text \<open>
  The head of the recursive \<open>buildAddress2ProbeMap\<close>, up to the two counts: the inline
  site, the GUID, the switch to the tree node, the number of probes and the number of
  inlinees. \<open>None\<close> is a \<open>return false\<close>; otherwise the result is the new \<open>Cur\<close> with the
  two counts.
\<close>

definition readHeader ::
  "nat option \<Rightarrow> uint64_t set \<Rightarrow> MCPseudoProbeDecoder
     \<Rightarrow> (nat option \<times> uint32_t \<times> uint32_t) option \<times> MCPseudoProbeDecoder" where
  "readHeader Cur GuildFilter d =
     (case readInlineSite Cur d of
        (None, d1) \<Rightarrow> (None, d1)
      | (Some Index, d1) \<Rightarrow>
     (case readUnencodedNumber d1 of
        (None, d2) \<Rightarrow> (None, d2)
      | (Some (G :: uint64_t), d2) \<Rightarrow>
     (case enterNode Cur GuildFilter G Index d2 of (Cur', d3) \<Rightarrow>
     (case readUnsignedNumber d3 of
        (None, d4) \<Rightarrow> (None, d4)
      | (Some (NodeCount :: uint32_t), d4) \<Rightarrow>
     (case readUnsignedNumber d4 of
        (None, d5) \<Rightarrow> (None, d5)
      | (Some (ChildrenToProcess :: uint32_t), d5) \<Rightarrow>
          (Some (Cur', NodeCount, ChildrenToProcess), d5))))))"

lemma readHeader_cases:
  obtains (fail) d' where "readHeader Cur F d = (None, d')" "advances d d'"
  | (ok) Index d1 G d2 Cur' d3 NodeCount d4 ChildrenToProcess d5 where
      "readInlineSite Cur d = (Some Index, d1)"
      "readUnencodedNumber d1 = (Some (G :: uint64_t), d2)"
      "enterNode Cur F G Index d2 = (Cur', d3)"
      "readUnsignedNumber d3 = (Some (NodeCount :: uint32_t), d4)"
      "readUnsignedNumber d4 = (Some (ChildrenToProcess :: uint32_t), d5)"
      "readHeader Cur F d = (Some (Cur', NodeCount, ChildrenToProcess), d5)"
      "advances d d1" "advances d1 d2" "advances d2 d3" "advances d3 d4" "advances d4 d5"
proof -
  obtain r1 d1 where 1: "readInlineSite Cur d = (r1, d1)"
    by (cases "readInlineSite Cur d")
  obtain r2 d2 where 2: "(readUnencodedNumber d1 :: uint64_t option \<times> _) = (r2, d2)"
    by (cases "readUnencodedNumber d1 :: uint64_t option \<times> _")
  have a1: "advances d d1" using advances_readInlineSite [of d Cur] 1 by simp
  have a2: "advances d1 d2" using advances_readUnencodedNumber [of d1, where 'a = 64] 2 by simp
  show ?thesis
  proof (cases r1)
    case None
    then show ?thesis using 1 a1 by (intro fail [of d1]) (simp_all add: readHeader_def)
  next
    case (Some Index)
    note r1 = this
    show ?thesis
    proof (cases r2)
      case None
      then show ?thesis
        using 1 2 r1 advances_trans [OF a1 a2] by (intro fail [of d2]) (simp_all add: readHeader_def)
    next
      case (Some G)
      note r2 = this
      obtain Cur' d3 where 3: "enterNode Cur F G Index d2 = (Cur', d3)"
        by (cases "enterNode Cur F G Index d2")
      obtain r4 d4 where 4: "(readUnsignedNumber d3 :: uint32_t option \<times> _) = (r4, d4)"
        by (cases "readUnsignedNumber d3 :: uint32_t option \<times> _")
      obtain r5 d5 where 5: "(readUnsignedNumber d4 :: uint32_t option \<times> _) = (r5, d5)"
        by (cases "readUnsignedNumber d4 :: uint32_t option \<times> _")
      have a3: "advances d2 d3" using advances_enterNode [of d2 Cur F G Index] 3 by simp
      have a4: "advances d3 d4" using advances_readUnsignedNumber [of d3, where 'a = 32] 4 by simp
      have a5: "advances d4 d5" using advances_readUnsignedNumber [of d4, where 'a = 32] 5 by simp
      note a13 = advances_trans [OF advances_trans [OF a1 a2] a3]
      show ?thesis
      proof (cases r4)
        case None
        then show ?thesis
          using 1 2 3 4 r1 r2 advances_trans [OF a13 a4]
          by (intro fail [of d4]) (simp_all add: readHeader_def)
      next
        case (Some NodeCount)
        note r4 = this
        show ?thesis
        proof (cases r5)
          case None
          then show ?thesis
            using 1 2 3 4 5 r1 r2 r4 advances_trans [OF advances_trans [OF a13 a4] a5]
            by (intro fail [of d5]) (simp_all add: readHeader_def)
        next
          case (Some ChildrenToProcess)
          then show ?thesis
            using 1 2 3 4 5 r1 r2 r4 a1 a2 a3 a4 a5
            by (intro ok [of Index d1 G d2 Cur' d3 NodeCount d4 ChildrenToProcess d5])
              (simp_all add: readHeader_def)
        qed
      qed
    qed
  qed
qed

lemma advances_readHeader: "advances d (snd (readHeader Cur F d))"
proof (cases Cur F d rule: readHeader_cases)
  case (fail d')
  then show ?thesis by simp
next
  case (ok Index d1 G d2 Cur' d3 NodeCount d4 ChildrenToProcess d5)
  have "advances d d5"
    using ok(7-11) by (blast intro: advances_trans)
  then show ?thesis using ok(6) by simp
qed

lemma readHeader_Some:
  assumes "readHeader Cur F d = (Some h, d')"
  shows "Data d + 8 \<le> Data d'" and "Data d < End d"
proof -
  from assms obtain Index d1 G d2 Cur' d3 NodeCount d4 ChildrenToProcess where
    2: "readUnencodedNumber d1 = (Some (G :: uint64_t), d2)"
    and a: "advances d d1" "advances d2 d3" "advances d3 d4" "advances d4 d'"
    by (cases Cur F d rule: readHeader_cases) auto
  have e2: "d2 = d1\<lparr>Data := Data d1 + 8\<rparr>" "Data d1 + 8 \<le> End d1"
    using readUnencodedNumber_Some [OF 2] by simp_all
  show "Data d + 8 \<le> Data d'" "Data d < End d"
    using a e2 by (auto simp: advances_def)
qed

text \<open>
  The recursive \<open>buildAddress2ProbeMap(Cur, LastAddr, GuildFilter)\<close>. \<open>buildInlinees\<close> is
  its final loop over the inlinees, which drops the result of each recursive call.
\<close>

function buildAddress2ProbeMap_rec ::
  "nat option \<Rightarrow> uint64_t \<Rightarrow> uint64_t set \<Rightarrow> MCPseudoProbeDecoder
     \<Rightarrow> bool \<times> uint64_t \<times> MCPseudoProbeDecoder"
and buildInlinees ::
  "nat \<Rightarrow> nat option \<Rightarrow> uint64_t \<Rightarrow> uint64_t set \<Rightarrow> MCPseudoProbeDecoder
     \<Rightarrow> uint64_t \<times> MCPseudoProbeDecoder"
where
  "buildAddress2ProbeMap_rec Cur LastAddr GuildFilter d =
     (case readHeader Cur GuildFilter d of
        (None, d') \<Rightarrow> (False, LastAddr, d')
      | (Some (Cur', NodeCount, ChildrenToProcess), d5) \<Rightarrow>
     (case readProbes (unat NodeCount) Cur' LastAddr d5 of (ok, LastAddr', d6) \<Rightarrow>
        if ok
        then (case buildInlinees (unat ChildrenToProcess) Cur' LastAddr' GuildFilter d6 of
                (LastAddr'', d7) \<Rightarrow> (True, LastAddr'', d7))
        else (False, LastAddr', d6)))"
| "buildInlinees 0 Cur LastAddr GuildFilter d = (LastAddr, d)"
| "buildInlinees (Suc n) Cur LastAddr GuildFilter d =
     (case buildAddress2ProbeMap_rec Cur LastAddr GuildFilter d of
        (ok, LastAddr', d') \<Rightarrow> buildInlinees n Cur LastAddr' GuildFilter d')"
  by pat_completeness auto

lemma buildAddress2ProbeMap_rec_advances_partial:
  "buildAddress2ProbeMap_rec_buildInlinees_dom (Inl (Cur, LastAddr, F, d)) \<Longrightarrow>
     advances d (snd (snd (buildAddress2ProbeMap_rec Cur LastAddr F d)))"
  "buildAddress2ProbeMap_rec_buildInlinees_dom (Inr (n, Cur, LastAddr, F, d)) \<Longrightarrow>
     advances d (snd (buildInlinees n Cur LastAddr F d))"
proof (induction Cur LastAddr F d and n Cur LastAddr F d
    rule: buildAddress2ProbeMap_rec_buildInlinees.pinduct)
  case (1 Cur LastAddr F d)
  note e = buildAddress2ProbeMap_rec.psimps [OF "1.hyps"]
  obtain r d5 where h: "readHeader Cur F d = (r, d5)"
    by (cases "readHeader Cur F d")
  have a5: "advances d d5" using advances_readHeader [of d Cur F] unfolding h by simp
  show ?case
  proof (cases r)
    case None
    show ?thesis unfolding e h None using a5 by simp
  next
    case (Some t)
    obtain Cur' NodeCount ChildrenToProcess where t: "t = (Cur', NodeCount, ChildrenToProcess)"
      by (cases t)
    obtain ok la d6 where 6: "readProbes (unat NodeCount) Cur' LastAddr d5 = (ok, la, d6)"
      by (cases "readProbes (unat NodeCount) Cur' LastAddr d5")
    have "advances d5 d6"
      using advances_readProbes [of d5 "unat NodeCount" Cur' LastAddr] unfolding 6 by simp
    with a5 have a6: "advances d d6" by (rule advances_trans)
    show ?thesis
    proof (cases ok)
      case False
      show ?thesis unfolding e h Some t using 6 False a6 by simp
    next
      case True
      obtain la' d7 where 7:
        "buildInlinees (unat ChildrenToProcess) Cur' la F d6 = (la', d7)"
        by (cases "buildInlinees (unat ChildrenToProcess) Cur' la F d6")
      have "advances d6 (snd (buildInlinees (unat ChildrenToProcess) Cur' la F d6))"
      proof (rule "1.IH" [of "Some t" d5 t Cur' "(NodeCount, ChildrenToProcess)" NodeCount
            ChildrenToProcess ok "(la, d6)" la d6])
        show "(Some t, d5) = readHeader Cur F d" unfolding h Some ..
        show "(Cur', NodeCount, ChildrenToProcess) = t" unfolding t ..
        show "(ok, la, d6) = readProbes (unat NodeCount) Cur' LastAddr d5" unfolding 6 ..
        show ok by (rule True)
      qed (rule refl)+
      then have "advances d6 d7" unfolding 7 by simp
      with a6 have "advances d d7" by (rule advances_trans)
      then show ?thesis unfolding e h Some t using 6 7 True by simp
    qed
  qed
next
  case (2 Cur LastAddr F d)
  then show ?case by (simp add: buildInlinees.psimps)
next
  case (3 n Cur LastAddr F d)
  obtain ok la d' where r: "buildAddress2ProbeMap_rec Cur LastAddr F d = (ok, la, d')"
    by (cases "buildAddress2ProbeMap_rec Cur LastAddr F d")
  have "advances d d'" using "3.IH"(1) unfolding r by simp
  moreover have "advances d' (snd (buildInlinees n Cur la F d'))"
    by (rule "3.IH"(2) [of ok "(la, d')" la d']) (simp_all add: r)
  ultimately have "advances d (snd (buildInlinees n Cur la F d'))"
    by (rule advances_trans)
  then show ?case
    unfolding buildInlinees.psimps(2) [OF "3.hyps"] r by simp
qed

lemma buildAddress2ProbeMap_rec_total: "All buildAddress2ProbeMap_rec_buildInlinees_dom"
proof (rule "buildAddress2ProbeMap_rec_buildInlinees.termination"
    [where R = "(\<lambda>x. case x of Inl (Cur, LastAddr, F, d) \<Rightarrow> End d - Data d
                           | Inr (n, Cur, LastAddr, F, d) \<Rightarrow> End d - Data d)
      <*mlex*> (\<lambda>x. case x of Inl _ \<Rightarrow> 0 | Inr _ \<Rightarrow> Suc 0)
      <*mlex*> measure (\<lambda>x. case x of Inl _ \<Rightarrow> 0 | Inr (n, _) \<Rightarrow> n)"], goal_cases)
  case 1
  show ?case by (intro wf_mlex wf_measure)
next
  case (2 Cur LastAddr F d h d5 t Cur' c NodeCount ChildrenToProcess ok y la d6)
  then have h: "readHeader Cur F d = (Some t, d5)"
    and p: "readProbes (unat NodeCount) Cur' LastAddr d5 = (ok, la, d6)"
    by simp_all
  have "advances d5 d6"
    using advances_readProbes [of d5 "unat NodeCount" Cur' LastAddr] p by simp
  then have "End d6 - Data d6 < End d - Data d"
    using readHeader_Some [OF h] advances_readHeader [of d Cur F] h
    by (auto simp: advances_def)
  then show ?case by (simp add: mlex_less)
next
  case (3 n Cur LastAddr F d)
  show ?case by (rule mlex_leq, simp, rule mlex_less, simp)
next
  case (4 n Cur LastAddr F d ok y la d')
  have "advances d d'"
    using buildAddress2ProbeMap_rec_advances_partial(1) [of Cur LastAddr F d] 4
    by (metis snd_conv)
  then have "End d' - Data d' \<le> End d - Data d"
    by (auto simp: advances_def)
  then show ?case by (simp add: mlex_leq mlex_less)
qed

termination buildAddress2ProbeMap_rec
  by (rule buildAddress2ProbeMap_rec_total)

lemma advances_buildAddress2ProbeMap_rec:
  "advances d (snd (snd (buildAddress2ProbeMap_rec Cur LastAddr F d)))"
  using buildAddress2ProbeMap_rec_advances_partial(1) buildAddress2ProbeMap_rec_total by blast

lemma advances_buildInlinees:
  "advances d (snd (buildInlinees n Cur LastAddr F d))"
  using buildAddress2ProbeMap_rec_advances_partial(2) buildAddress2ProbeMap_rec_total by blast

text \<open>
  \<open>Data = Start; End = Data + Size\<close>: the byte range is set and the cursor is at its
  start.
\<close>

definition start_at :: "uint8_t list \<Rightarrow> MCPseudoProbeDecoder \<Rightarrow> MCPseudoProbeDecoder" where
  "start_at Start d = d\<lparr>Buf := Start, Data := 0, End := length Start\<rparr>"

text \<open>
  The loop of \<open>buildAddress2ProbeMap(Start, Size, GuildFilter)\<close>. It drops the result of
  every call, so it can run forever: \<open>None\<close> is the loop that does not end.
\<close>

partial_function (option) buildAddress2ProbeMap_loop ::
  "uint64_t set \<Rightarrow> uint64_t \<Rightarrow> MCPseudoProbeDecoder \<Rightarrow> MCPseudoProbeDecoder option" where
  "buildAddress2ProbeMap_loop GuildFilter LastAddr d =
     (if Data d < End d
      then (case buildAddress2ProbeMap_rec (Some DummyInlineRoot) LastAddr GuildFilter d of
              (ok, LastAddr', d') \<Rightarrow> buildAddress2ProbeMap_loop GuildFilter LastAddr' d')
      else Some d)"

text \<open>
  \<open>buildAddress2ProbeMap(Start, Size, GuildFilter)\<close>; the byte range is the list \<open>Start\<close>.
  The result \<open>None\<close> is a call that does not return: the loop does not end, or the
  assertion \<open>Data == End\<close> fails.
\<close>

definition buildAddress2ProbeMap ::
  "uint8_t list \<Rightarrow> uint64_t set \<Rightarrow> MCPseudoProbeDecoder \<Rightarrow> (bool \<times> MCPseudoProbeDecoder) option" where
  "buildAddress2ProbeMap Start GuildFilter d =
     (case buildAddress2ProbeMap_loop GuildFilter 0 (start_at Start d) of
        None \<Rightarrow> None
      | Some d' \<Rightarrow> if Data d' = End d' then Some (True, d') else None)"

subsection \<open>Decoding the descriptor section\<close>

text \<open>One iteration of the loop of \<open>buildGUID2FuncDescMap\<close>; \<open>emplace\<close> keeps an existing entry.\<close>

definition readFuncDesc :: "MCPseudoProbeDecoder \<Rightarrow> bool \<times> MCPseudoProbeDecoder" where
  "readFuncDesc d =
     (case readUnencodedNumber d of
        (None, d1) \<Rightarrow> (False, d1)
      | (Some (GUID :: uint64_t), d1) \<Rightarrow>
     (case readUnencodedNumber d1 of
        (None, d2) \<Rightarrow> (False, d2)
      | (Some (Hash :: uint64_t), d2) \<Rightarrow>
     (case readUnsignedNumber d2 of
        (None, d3) \<Rightarrow> (False, d3)
      | (Some (NameSize :: uint32_t), d3) \<Rightarrow>
     (case readString (unat NameSize) d3 of
        (None, d4) \<Rightarrow> (False, d4)
      | (Some Name, d4) \<Rightarrow>
          (True, d4\<lparr>GUID2FuncDescMap :=
             (if GUID \<in> dom (GUID2FuncDescMap d4) then GUID2FuncDescMap d4
              else (GUID2FuncDescMap d4)(GUID \<mapsto>
                     \<lparr>FuncGUID = GUID, FuncHash = Hash, FuncName = Name\<rparr>))\<rparr>)))))"

lemma readFuncDesc_advances:
  "readFuncDesc d = (True, d') \<Longrightarrow> End d' = End d \<and> Data d + 8 \<le> Data d'"
proof -
  assume a: "readFuncDesc d = (True, d')"
  obtain r1 d1 where 1: "(readUnencodedNumber d :: uint64_t option \<times> _) = (r1, d1)"
    by (cases "readUnencodedNumber d :: uint64_t option \<times> _")
  obtain r2 d2 where 2: "(readUnencodedNumber d1 :: uint64_t option \<times> _) = (r2, d2)"
    by (cases "readUnencodedNumber d1 :: uint64_t option \<times> _")
  obtain r3 d3 where 3: "(readUnsignedNumber d2 :: uint32_t option \<times> _) = (r3, d3)"
    by (cases "readUnsignedNumber d2 :: uint32_t option \<times> _")
  from a 1 obtain GUID where g: "r1 = Some GUID"
    by (cases r1) (auto simp: readFuncDesc_def)
  from a 1 2 g obtain Hash where h: "r2 = Some Hash"
    by (cases r2) (auto simp: readFuncDesc_def)
  from a 1 2 3 g h obtain NameSize where n: "r3 = Some NameSize"
    by (cases r3) (auto simp: readFuncDesc_def)
  obtain r4 d4 where 4: "readString (unat NameSize) d3 = (r4, d4)"
    by (cases "readString (unat NameSize) d3")
  from a 1 2 3 4 g h n obtain Name where m: "r4 = Some Name"
    by (cases r4) (auto simp: readFuncDesc_def)
  have e1: "d1 = d\<lparr>Data := Data d + 8\<rparr>"
    using readUnencodedNumber_Some [of d GUID d1] 1 g by simp
  have a2: "advances d1 d2" using advances_readUnencodedNumber [of d1, where 'a = 64] 2 by simp
  have a3: "advances d2 d3" using advances_readUnsignedNumber [of d2, where 'a = 32] 3 by simp
  have a4: "advances d3 d4" using advances_readString [of d3 "unat NameSize"] 4 by simp
  have "Data d' = Data d4" "End d' = End d4"
    using a 1 2 3 4 g h n m by (auto simp: readFuncDesc_def)
  then show ?thesis
    using e1 a2 a3 a4 by (auto simp: advances_def)
qed

function buildGUID2FuncDescMap_loop :: "MCPseudoProbeDecoder \<Rightarrow> bool \<times> MCPseudoProbeDecoder" where
  "buildGUID2FuncDescMap_loop d =
     (if Data d < End d
      then (case readFuncDesc d of (ok, d') \<Rightarrow>
              if ok then buildGUID2FuncDescMap_loop d' else (False, d'))
      else (True, d))"
  by pat_completeness auto
termination
proof (relation "measure (\<lambda>d. End d - Data d)", goal_cases)
  case 1
  show ?case by simp
next
  case (2 d ok d')
  then have "readFuncDesc d = (True, d')" by simp
  from readFuncDesc_advances [OF this] 2 show ?case by auto
qed

text \<open>
  \<open>buildGUID2FuncDescMap(Start, Size)\<close>; \<open>None\<close> is the failed assertion \<open>Data == End\<close>
  after the loop.
\<close>

definition buildGUID2FuncDescMap ::
  "uint8_t list \<Rightarrow> MCPseudoProbeDecoder \<Rightarrow> (bool \<times> MCPseudoProbeDecoder) option" where
  "buildGUID2FuncDescMap Start d =
     (case buildGUID2FuncDescMap_loop (start_at Start d) of
        (ok, d') \<Rightarrow> if \<not> ok then Some (False, d')
                   else if Data d' = End d' then Some (True, d') else None)"

subsection \<open>The inline tree of the encoder\<close>

text \<open>
  \<open>MCPseudoProbeInlineTree\<close>: the GUID, the probes in insertion order, and the children,
  each owned by its parent and keyed by its inline site (an \<open>unordered_map\<close>, here in
  some iteration order).
\<close>

datatype MCPseudoProbeInlineTree =
  Tree (Tree_Guid: uint64_t) (Tree_Probes: "MCPseudoProbe list")
       (Tree_Children: "(InlineSite \<times> MCPseudoProbeInlineTree) list")

definition isRoot :: "MCPseudoProbeInlineTree \<Rightarrow> bool" where
  "isRoot T \<longleftrightarrow> Tree_Guid T = 0"

text \<open>
  Modelled from the spec: \<open>getOrAddNode\<close> of the absent header, on the encoder's tree: the
  child keyed by the inline site is reused, or created with the site's GUID and without
  probes or children (the parent pointer it also sets is never read by the encoder).
\<close>

definition Tree_getOrAddNode :: "InlineSite \<Rightarrow> MCPseudoProbeInlineTree \<Rightarrow> MCPseudoProbeInlineTree" where
  "Tree_getOrAddNode Site T =
     (case map_of (Tree_Children T) Site of
        Some C \<Rightarrow> T
      | None \<Rightarrow> Tree (Tree_Guid T) (Tree_Probes T) (Tree_Children T @ [(Site, Tree (fst Site) [] [])]))"

text \<open>\<open>Probes.push_back(Probe)\<close>.\<close>

definition push_back_Probe :: "MCPseudoProbe \<Rightarrow> MCPseudoProbeInlineTree \<Rightarrow> MCPseudoProbeInlineTree" where
  "push_back_Probe P T = Tree (Tree_Guid T) (Tree_Probes T @ [P]) (Tree_Children T)"

text \<open>
  A pointer to a node is the list of inline sites that leads to it from the root;
  \<open>at_node Cur f Root\<close> is the tree after \<open>f\<close> has changed the node \<open>Cur\<close> points to.
\<close>

fun at_node ::
  "InlineSite list \<Rightarrow> (MCPseudoProbeInlineTree \<Rightarrow> MCPseudoProbeInlineTree)
     \<Rightarrow> MCPseudoProbeInlineTree \<Rightarrow> MCPseudoProbeInlineTree"
and at_child ::
  "InlineSite \<Rightarrow> InlineSite list \<Rightarrow> (MCPseudoProbeInlineTree \<Rightarrow> MCPseudoProbeInlineTree)
     \<Rightarrow> (InlineSite \<times> MCPseudoProbeInlineTree) list \<Rightarrow> (InlineSite \<times> MCPseudoProbeInlineTree) list"
where
  "at_node [] f T = f T"
| "at_node (Site # Path) f (Tree G Ps Cs) = Tree G Ps (at_child Site Path f Cs)"
| "at_child Site Path f [] = []"
| "at_child Site Path f ((K, C) # Cs) =
     (if K = Site then (K, at_node Path f C) # Cs else (K, C) # at_child Site Path f Cs)"

text \<open>
  The loop of \<open>addPseudoProbe\<close> over the inline stack from its second entry: an edge for
  the previous probe id and the current GUID.
\<close>

fun walkInlineStack ::
  "uint32_t \<Rightarrow> InlineSite list \<Rightarrow> InlineSite list \<Rightarrow> MCPseudoProbeInlineTree
     \<Rightarrow> uint32_t \<times> InlineSite list \<times> MCPseudoProbeInlineTree" where
  "walkInlineStack Index [] Cur Root = (Index, Cur, Root)"
| "walkInlineStack Index (Site # Iter) Cur Root =
     walkInlineStack (snd Site) Iter (Cur @ [(fst Site, Index)])
       (at_node Cur (Tree_getOrAddNode (fst Site, Index)) Root)"

text \<open>\<open>addPseudoProbe\<close>; the failed assertion \<open>isRoot()\<close> is \<open>None\<close>.\<close>

definition addPseudoProbe ::
  "MCPseudoProbe \<Rightarrow> InlineSite list \<Rightarrow> MCPseudoProbeInlineTree \<Rightarrow> MCPseudoProbeInlineTree option" where
  "addPseudoProbe Probe InlineStack Root =
     (if \<not> isRoot Root then None
      else
        let Top = (if InlineStack = [] then (getGuid Probe, 0) else (fst (hd InlineStack), 0));
            Root1 = Tree_getOrAddNode Top Root;
            Cur = [Top]
        in (case (if InlineStack \<noteq> []
                  then (case walkInlineStack (snd (hd InlineStack)) (tl InlineStack) Cur Root1 of
                          (Index, Cur', Root2) \<Rightarrow>
                            (Cur' @ [(getGuid Probe, Index)],
                             at_node Cur' (Tree_getOrAddNode (getGuid Probe, Index)) Root2))
                  else (Cur, Root1)) of
              (Cur'', Root3) \<Rightarrow> Some (at_node Cur'' (push_back_Probe Probe) Root3)))"

subsection \<open>Emission\<close>

text \<open>
  \<open>std::map<InlineSite, MCPseudoProbeInlineTree *> Inlinees\<close>: the entries in ascending
  key order; \<open>Inlinees[Child.first] = Child.second.get()\<close> inserts or overwrites.
\<close>

fun Inlinees_insert ::
  "InlineSite \<Rightarrow> 'a \<Rightarrow> (InlineSite \<times> 'a) list \<Rightarrow> (InlineSite \<times> 'a) list" where
  "Inlinees_insert K V [] = [(K, V)]"
| "Inlinees_insert K V ((K', V') # M) =
     (if InlineSite_less K K' then (K, V) # (K', V') # M
      else if InlineSite_less K' K then (K', V') # Inlinees_insert K V M
      else (K', V) # M)"

fun Inlinees :: "(InlineSite \<times> 'a) list \<Rightarrow> (InlineSite \<times> 'a) list \<Rightarrow> (InlineSite \<times> 'a) list" where
  "Inlinees [] M = M"
| "Inlinees ((K, V) # Cs) M = Inlinees Cs (Inlinees_insert K V M)"

text \<open>The loop over the probes of a node: \<open>Probe.emit(MCOS, LastProbe); LastProbe = &Probe\<close>.\<close>

fun emitProbes ::
  "MCPseudoProbe list \<Rightarrow> MCPseudoProbe option \<Rightarrow> MCObjectStreamer
     \<Rightarrow> (MCPseudoProbe option \<times> MCObjectStreamer) option" where
  "emitProbes [] LastProbe MCOS = Some (LastProbe, MCOS)"
| "emitProbes (Probe # Ps) LastProbe MCOS =
     (case MCPseudoProbe_emit Probe LastProbe MCOS of
        None \<Rightarrow> None
      | Some MCOS' \<Rightarrow> emitProbes Ps (Some Probe) MCOS')"

text \<open>A measure for the recursion of \<open>emit\<close> through the sorted children.\<close>

definition Inlinees_weight :: "(InlineSite \<times> MCPseudoProbeInlineTree) list \<Rightarrow> nat" where
  "Inlinees_weight M = sum_list (map (\<lambda>(K, C). Suc (size C)) M)"

lemma Inlinees_weight_insert:
  "Inlinees_weight (Inlinees_insert K V M) \<le> Suc (size V) + Inlinees_weight M"
  by (induction M) (auto simp: Inlinees_weight_def)

lemma Inlinees_weight_Inlinees:
  "Inlinees_weight (Inlinees Cs M) \<le> Inlinees_weight Cs + Inlinees_weight M"
proof (induction Cs arbitrary: M)
  case Nil
  then show ?case by (simp add: Inlinees_weight_def)
next
  case (Cons a Cs)
  obtain K V where a: "a = (K, V)" by (cases a)
  have "Inlinees_weight (Inlinees (a # Cs) M) \<le> Inlinees_weight Cs + Inlinees_weight (Inlinees_insert K V M)"
    using Cons [of "Inlinees_insert K V M"] a by simp
  also have "\<dots> \<le> Inlinees_weight Cs + (Suc (size V) + Inlinees_weight M)"
    using Inlinees_weight_insert [of K V M] by simp
  finally show ?case using a by (simp add: Inlinees_weight_def)
qed

lemma Inlinees_weight_less: "Inlinees_weight Cs < size (Tree G Ps Cs)"
  by (induction Cs) (auto simp: Inlinees_weight_def)

text \<open>
  \<open>MCPseudoProbeInlineTree::emit\<close> and its loop over \<open>Inlinees\<close>. \<open>LastProbe\<close> is passed by
  reference, so it is returned. \<open>None\<close> is a failed assertion.
\<close>

function MCPseudoProbeInlineTree_emit ::
  "MCPseudoProbeInlineTree \<Rightarrow> MCPseudoProbe option \<Rightarrow> MCObjectStreamer
     \<Rightarrow> (MCPseudoProbe option \<times> MCObjectStreamer) option"
and emitInlinees ::
  "bool \<Rightarrow> (InlineSite \<times> MCPseudoProbeInlineTree) list \<Rightarrow> MCPseudoProbe option \<Rightarrow> MCObjectStreamer
     \<Rightarrow> (MCPseudoProbe option \<times> MCObjectStreamer) option"
where
  "MCPseudoProbeInlineTree_emit (Tree G Ps Cs) LastProbe MCOS =
     (case (if G \<noteq> 0
            then emitProbes Ps LastProbe
                   (emitItem (ULEB128IntValue (word_of_nat (length Cs)))
                     (emitItem (ULEB128IntValue (word_of_nat (length Ps)))
                       (emitItem (Int64 G) MCOS)))
            else if Ps = [] then Some (LastProbe, MCOS) else None) of
        None \<Rightarrow> None
      | Some (LastProbe', MCOS') \<Rightarrow> emitInlinees (G \<noteq> 0) (Inlinees Cs []) LastProbe' MCOS')"
| "emitInlinees nonRoot [] LastProbe MCOS = Some (LastProbe, MCOS)"
| "emitInlinees nonRoot ((Site, Inlinee) # M) LastProbe MCOS =
     (case MCPseudoProbeInlineTree_emit Inlinee LastProbe
             (if nonRoot then emitItem (ULEB128IntValue (ucast (snd Site))) MCOS else MCOS) of
        None \<Rightarrow> None
      | Some (LastProbe', MCOS') \<Rightarrow> emitInlinees nonRoot M LastProbe' MCOS')"
  by pat_completeness auto
termination MCPseudoProbeInlineTree_emit
proof (relation "measure (\<lambda>x. case x of Inl (T, _) \<Rightarrow> size T | Inr (_, M, _) \<Rightarrow> Inlinees_weight M)",
    goal_cases)
  case 1
  show ?case by simp
next
  case (2 G Ps Cs LastProbe MCOS x2 LastProbe' MCOS')
  show ?case
    using Inlinees_weight_Inlinees [of Cs "[]"] Inlinees_weight_less [of Cs G Ps]
    by (simp add: Inlinees_weight_def)
next
  case (3 nonRoot Site Inlinee M LastProbe MCOS)
  show ?case by (simp add: Inlinees_weight_def)
next
  case (4 nonRoot Site Inlinee M LastProbe MCOS x2 LastProbe' MCOS')
  show ?case by (simp add: Inlinees_weight_def)
qed

text \<open>
  \<open>MCPseudoProbeSection::emit\<close>: \<open>MCProbeDivisions\<close> in its iteration order.
\<close>

fun MCPseudoProbeSection_emit ::
  "(MCSection \<times> MCPseudoProbeInlineTree) list \<Rightarrow> MCObjectStreamer \<Rightarrow> MCObjectStreamer option" where
  "MCPseudoProbeSection_emit [] MCOS = Some MCOS"
| "MCPseudoProbeSection_emit ((Sec, T) # MCProbeDivisions) MCOS =
     (case getPseudoProbeSection MCOS Sec of
        Some S \<Rightarrow>
          (case MCPseudoProbeInlineTree_emit T None (emitItem (SwitchSection S) MCOS) of
             None \<Rightarrow> None
           | Some (LastProbe, MCOS') \<Rightarrow> MCPseudoProbeSection_emit MCProbeDivisions MCOS')
      | None \<Rightarrow> MCPseudoProbeSection_emit MCProbeDivisions MCOS)"


subsection \<open>Inline context of a decoded probe\<close>

type_synonym MCPseduoProbeFrameLocation = "uint8_t list \<times> uint32_t"

text \<open>\<open>getProbeFNameForGUID\<close>; the failed assertion is \<open>None\<close>.\<close>

definition getProbeFNameForGUID ::
  "(uint64_t \<rightharpoonup> MCPseudoProbeFuncDesc) \<Rightarrow> uint64_t \<Rightarrow> uint8_t list option" where
  "getProbeFNameForGUID GUID2FuncMAP GUID =
     (case GUID2FuncMAP GUID of None \<Rightarrow> None | Some Desc \<Rightarrow> Some (FuncName Desc))"

text \<open>
  The loop of \<open>getInlineContext\<close>. \<open>hasInlineSite\<close> is declared in the absent header and
  is a parameter here: a test on a node of the store. \<open>None\<close> is a walk that does not
  return: it does not end, a name is missing, or a parent pointer was never set.
\<close>

partial_function (option) walkInlineTree ::
  "(MCDecodedPseudoProbeInlineTree list \<Rightarrow> nat \<Rightarrow> bool) \<Rightarrow> MCPseudoProbeDecoder \<Rightarrow> nat
     \<Rightarrow> MCPseduoProbeFrameLocation list \<Rightarrow> MCPseduoProbeFrameLocation list option" where
  "walkInlineTree hasInlineSite d Cur ContextStack =
     (if hasInlineSite (Nodes d) Cur
      then (case Parent (Nodes d ! Cur) of
              None \<Rightarrow> None
            | Some P \<Rightarrow>
                (case getProbeFNameForGUID (GUID2FuncDescMap d) (Guid (Nodes d ! P)) of
                   None \<Rightarrow> None
                 | Some Name \<Rightarrow>
                     walkInlineTree hasInlineSite d P
                       (ContextStack @ [(Name, snd (ISite (Nodes d ! Cur)))])))
      else Some ContextStack)"

text \<open>\<open>MCDecodedPseudoProbe::getInlineContext\<close>: the frames added are reversed in place.\<close>

definition getInlineContext ::
  "(MCDecodedPseudoProbeInlineTree list \<Rightarrow> nat \<Rightarrow> bool) \<Rightarrow> MCPseudoProbeDecoder
     \<Rightarrow> MCDecodedPseudoProbe \<Rightarrow> MCPseduoProbeFrameLocation list
     \<Rightarrow> MCPseduoProbeFrameLocation list option" where
  "getInlineContext hasInlineSite d Probe ContextStack =
     (let Begin = length ContextStack in
      case walkInlineTree hasInlineSite d (InlineTree Probe) ContextStack of
        None \<Rightarrow> None
      | Some ContextStack' \<Rightarrow> Some (take Begin ContextStack' @ rev (drop Begin ContextStack')))"

definition getFuncDescForGUID ::
  "MCPseudoProbeDecoder \<Rightarrow> uint64_t \<Rightarrow> MCPseudoProbeFuncDesc option" where
  "getFuncDescForGUID d GUID = GUID2FuncDescMap d GUID"

definition getInlineContextForProbe ::
  "(MCDecodedPseudoProbeInlineTree list \<Rightarrow> nat \<Rightarrow> bool) \<Rightarrow> MCPseudoProbeDecoder
     \<Rightarrow> MCDecodedPseudoProbe \<Rightarrow> MCPseduoProbeFrameLocation list \<Rightarrow> bool
     \<Rightarrow> MCPseduoProbeFrameLocation list option" where
  "getInlineContextForProbe hasInlineSite d Probe InlineContextStack IncludeLeaf =
     (case getInlineContext hasInlineSite d Probe InlineContextStack of
        None \<Rightarrow> None
      | Some InlineContextStack' \<Rightarrow>
          if \<not> IncludeLeaf then Some InlineContextStack'
          else (case getFuncDescForGUID d (ProbeGuid Probe) of
                  None \<Rightarrow> None
                | Some FuncDesc \<Rightarrow>
                    Some (InlineContextStack' @ [(FuncName FuncDesc, ProbeIndex Probe)])))"

text \<open>
  The walk of the inline context as the specification words it: from a node, while the
  node has an inline site, the frame of the step is the name of the function of the
  parent's GUID with the call-site index of the node's inline site, and the walk goes on
  from the parent. \<open>inline_frames hasInlineSite d Cur Fs\<close>: the walk from \<open>Cur\<close> ends and
  collects the frames \<open>Fs\<close>, the innermost first.
\<close>

inductive inline_frames ::
  "(MCDecodedPseudoProbeInlineTree list \<Rightarrow> nat \<Rightarrow> bool) \<Rightarrow> MCPseudoProbeDecoder \<Rightarrow> nat
     \<Rightarrow> MCPseduoProbeFrameLocation list \<Rightarrow> bool"
  for hasInlineSite :: "MCDecodedPseudoProbeInlineTree list \<Rightarrow> nat \<Rightarrow> bool"
    and d :: MCPseudoProbeDecoder where
  stop: "\<not> hasInlineSite (Nodes d) Cur \<Longrightarrow> inline_frames hasInlineSite d Cur []"
| step: "hasInlineSite (Nodes d) Cur \<Longrightarrow> Parent (Nodes d ! Cur) = Some P \<Longrightarrow>
         getProbeFNameForGUID (GUID2FuncDescMap d) (Guid (Nodes d ! P)) = Some Name \<Longrightarrow>
         inline_frames hasInlineSite d P Fs \<Longrightarrow>
         inline_frames hasInlineSite d Cur ((Name, snd (ISite (Nodes d ! Cur))) # Fs)"

text \<open>
  Modelled from the spec: \<open>hasInlineSite\<close> of the absent header. A node has an inline
  site unless it is the synthetic root or a top-level function (a child of the root).
\<close>

definition hasInlineSite :: "MCDecodedPseudoProbeInlineTree list \<Rightarrow> nat \<Rightarrow> bool" where
  "hasInlineSite Ns Cur \<longleftrightarrow>
     Guid (Ns ! Cur) \<noteq> 0 \<and>
     (case Parent (Ns ! Cur) of None \<Rightarrow> False | Some P \<Rightarrow> Guid (Ns ! P) \<noteq> 0)"

subsection \<open>Insertion as the specification lays it out\<close>

text \<open>
  The path of a probe with an inline stack, from the words of the specification: under
  the root the child \<open>(fn\<^sub>1, 0)\<close>, or \<open>(guid of the probe, 0)\<close> for an empty stack; then for
  each later entry the child of the entry's GUID at the call site of the entry before;
  last the child of the probe's GUID at the call site of the last entry.
\<close>

fun spec_path_from :: "uint32_t \<Rightarrow> InlineSite list \<Rightarrow> uint64_t \<Rightarrow> InlineSite list" where
  "spec_path_from callsite [] guid = [(guid, callsite)]"
| "spec_path_from callsite ((fn, callsite') # stack) guid =
     (fn, callsite) # spec_path_from callsite' stack guid"

fun spec_path :: "MCPseudoProbe \<Rightarrow> InlineSite list \<Rightarrow> InlineSite list" where
  "spec_path P [] = [(getGuid P, 0)]"
| "spec_path P ((fn, callsite) # stack) = (fn, 0) # spec_path_from callsite stack (getGuid P)"

text \<open>The node a path leads to, and its probes.\<close>

fun tree_at :: "InlineSite list \<Rightarrow> MCPseudoProbeInlineTree \<Rightarrow> MCPseudoProbeInlineTree option" where
  "tree_at [] T = Some T"
| "tree_at (Site # Path) T =
     (case map_of (Tree_Children T) Site of None \<Rightarrow> None | Some C \<Rightarrow> tree_at Path C)"

definition probes_at :: "InlineSite list \<Rightarrow> MCPseudoProbeInlineTree \<Rightarrow> MCPseudoProbe list option" where
  "probes_at Path T = map_option Tree_Probes (tree_at Path T)"

text \<open>
  Descend along a path, reusing the child that exists and creating the one that is
  missing, and change the node at its end.
\<close>

fun install ::
  "InlineSite list \<Rightarrow> (MCPseudoProbeInlineTree \<Rightarrow> MCPseudoProbeInlineTree)
     \<Rightarrow> MCPseudoProbeInlineTree \<Rightarrow> MCPseudoProbeInlineTree" where
  "install [] f T = f T"
| "install (Site # Path) f T = at_node [Site] (install Path f) (Tree_getOrAddNode Site T)"

text \<open>The child at an inline site: the one that exists, or the one that would be created.\<close>

definition child_or_new :: "InlineSite \<Rightarrow> MCPseudoProbeInlineTree \<Rightarrow> MCPseudoProbeInlineTree" where
  "child_or_new Site T =
     (case map_of (Tree_Children T) Site of Some C \<Rightarrow> C | None \<Rightarrow> Tree (fst Site) [] [])"

subsection \<open>The emitted stream as the specification lays it out\<close>

text \<open>
  The packed byte and the address field of a probe record, from the words of the
  specification: bit 7 is set iff a previous probe is supplied; without a previous probe
  the label is emitted as a symbolic code address, with one the signed delta if the
  assembler folds it, a fixup fragment otherwise.
\<close>

definition spec_packed_byte :: "MCPseudoProbe \<Rightarrow> MCPseudoProbe option \<Rightarrow> uint8_t" where
  "spec_packed_byte P LastProbe =
     (if LastProbe = None then 0 else 0x80) OR (getType P OR push_bit 4 (getAttributes P))"

definition spec_address_field ::
  "MCObjectStreamer \<Rightarrow> MCPseudoProbe \<Rightarrow> MCPseudoProbe option \<Rightarrow> MCItem" where
  "spec_address_field MCOS P LastProbe =
     (case LastProbe of
        None \<Rightarrow> SymbolValue (getLabel P) (getCodePointerSize MCOS)
      | Some L \<Rightarrow>
          (case evaluateAsAbsolute MCOS (getLabel P) (getLabel L) of
             Some Delta \<Rightarrow> SLEB128IntValue Delta
           | None \<Rightarrow> MCPseudoProbeAddrFragment (getLabel P) (getLabel L)))"

fun spec_probe_records ::
  "MCObjectStreamer \<Rightarrow> MCPseudoProbe option \<Rightarrow> MCPseudoProbe list \<Rightarrow> MCItem list" where
  "spec_probe_records MCOS LastProbe [] = []"
| "spec_probe_records MCOS LastProbe (P # Ps) =
     [ULEB128IntValue (getIndex P), Int8 (spec_packed_byte P LastProbe),
      spec_address_field MCOS P LastProbe] @ spec_probe_records MCOS (Some P) Ps"

text \<open>
  What an emission walk puts out, in order: the header of a group (a node with a GUID)
  and the record of a probe.
\<close>

datatype emit_event = Group uint64_t | Record MCPseudoProbe

text \<open>
  The walk the amended claim describes: a node's header and its probes in the order of
  the list, then its children in the order of \<open>Inlinees\<close>.
\<close>

function tree_events :: "MCPseudoProbeInlineTree \<Rightarrow> emit_event list"
  and inlinees_events :: "(InlineSite \<times> MCPseudoProbeInlineTree) list \<Rightarrow> emit_event list"
where
  "tree_events (Tree G Ps Cs) =
     (if G \<noteq> 0 then Group G # map Record Ps else []) @ inlinees_events (Inlinees Cs [])"
| "inlinees_events [] = []"
| "inlinees_events ((Site, Inlinee) # M) = tree_events Inlinee @ inlinees_events M"
  by pat_completeness auto
termination tree_events
proof (relation "measure (\<lambda>x. case x of Inl T \<Rightarrow> size T | Inr M \<Rightarrow> Inlinees_weight M)", goal_cases)
  case 1
  show ?case by simp
next
  case (2 G Ps Cs)
  show ?case
    using Inlinees_weight_Inlinees [of Cs "[]"] Inlinees_weight_less [of Cs G Ps]
    by (simp add: Inlinees_weight_def)
next
  case (3 Site Inlinee M)
  show ?case by (simp add: Inlinees_weight_def)
next
  case (4 Site Inlinee M)
  show ?case by (simp add: Inlinees_weight_def)
qed

text \<open>
  The items of the stream that show the walk: for a group its GUID, for a probe its
  packed byte and its address field, the first probe without a previous one.
\<close>

fun spec_event_stream ::
  "MCObjectStreamer \<Rightarrow> MCPseudoProbe option \<Rightarrow> emit_event list \<Rightarrow> MCItem list" where
  "spec_event_stream MCOS LastProbe [] = []"
| "spec_event_stream MCOS LastProbe (Group G # Es) = Int64 G # spec_event_stream MCOS LastProbe Es"
| "spec_event_stream MCOS LastProbe (Record P # Es) =
     [Int8 (spec_packed_byte P LastProbe), spec_address_field MCOS P LastProbe]
       @ spec_event_stream MCOS (Some P) Es"

fun last_probe :: "MCPseudoProbe option \<Rightarrow> emit_event list \<Rightarrow> MCPseudoProbe option" where
  "last_probe LastProbe [] = LastProbe"
| "last_probe LastProbe (Group G # Es) = last_probe LastProbe Es"
| "last_probe LastProbe (Record P # Es) = last_probe (Some P) Es"

text \<open>The items that are not counts or indices: they mark sections, groups and probes.\<close>

fun is_mark :: "MCItem \<Rightarrow> bool" where
  "is_mark (Int8 b) = True"
| "is_mark (SLEB128IntValue D) = True"
| "is_mark (SymbolValue L n) = True"
| "is_mark (MCPseudoProbeAddrFragment A B) = True"
| "is_mark (SwitchSection S) = True"
| "is_mark (Int64 v) = True"
| "is_mark (ULEB128IntValue v) = False"

fun spec_section_stream ::
  "MCObjectStreamer \<Rightarrow> (MCSection \<times> MCPseudoProbeInlineTree) list \<Rightarrow> MCItem list" where
  "spec_section_stream MCOS [] = []"
| "spec_section_stream MCOS ((Sec, T) # Divs) =
     (case getPseudoProbeSection MCOS Sec of
        None \<Rightarrow> []
      | Some S \<Rightarrow> SwitchSection S # spec_event_stream MCOS None (tree_events T))
     @ spec_section_stream MCOS Divs"

definition encodable :: "MCPseudoProbe \<Rightarrow> bool" where
  "encodable P \<longleftrightarrow> getType P \<le> 15 \<and> getAttributes P \<le> 7"

text \<open>
  \<open>emits MCOS LastProbe Es L' MCOS'\<close>: the streamer went from \<open>MCOS\<close> to \<open>MCOS'\<close> by
  appending items whose marks are the stream of the events \<open>Es\<close>.
\<close>

definition emits ::
  "MCObjectStreamer \<Rightarrow> MCPseudoProbe option \<Rightarrow> emit_event list
     \<Rightarrow> MCPseudoProbe option \<Rightarrow> MCObjectStreamer \<Rightarrow> bool" where
  "emits MCOS LastProbe Es L' MCOS' \<longleftrightarrow>
     (\<exists>items. MCOS' = MCOS\<lparr>Emitted := Emitted MCOS @ items\<rparr>
        \<and> filter is_mark items = spec_event_stream MCOS LastProbe Es)
     \<and> L' = last_probe LastProbe Es \<and> (\<forall>P. Record P \<in> set Es \<longrightarrow> encodable P)"

subsection \<open>Well-formed sections and the decoded forest\<close>

text \<open>
  A LEB128 field: bytes with the continuation bit, closed by one byte without it. An
  unsigned field of 32 bits and a signed field of 64 bits also denote a number of that
  range.
\<close>

definition is_leb128 :: "uint8_t list \<Rightarrow> bool" where
  "is_leb128 bs \<longleftrightarrow> bs \<noteq> [] \<and> last bs < 128 \<and> (\<forall>b \<in> set (butlast bs). 128 \<le> b)"

definition uleb32 :: "uint8_t list \<Rightarrow> bool" where
  "uleb32 bs \<longleftrightarrow> is_leb128 bs \<and> fst (decodeULEB128 bs) \<le> 2 ^ 32 - 1"

definition sleb64 :: "uint8_t list \<Rightarrow> bool" where
  "sleb64 bs \<longleftrightarrow> is_leb128 bs \<and> - (2 ^ 63) \<le> fst (decodeSLEB128 bs) \<and>
     fst (decodeSLEB128 bs) \<le> 2 ^ 63 - 1"

text \<open>
  The bytes between the cursor and the end of the byte range, and a step of the decoder
  that has consumed the bytes \<open>bs\<close>.
\<close>

definition remaining :: "MCPseudoProbeDecoder \<Rightarrow> uint8_t list" where
  "remaining d = drop (Data d) (take (End d) (Buf d))"

definition consumes :: "uint8_t list \<Rightarrow> MCPseudoProbeDecoder \<Rightarrow> MCPseudoProbeDecoder \<Rightarrow> bool" where
  "consumes bs d d' \<longleftrightarrow> Buf d' = Buf d \<and> End d' = End d \<and> Data d' = Data d + length bs"

text \<open>
  The address field of a probe record, and the address it stands for when the probe
  record before it in the section had the address \<open>last_addr\<close>: "if \<open>delta_flag\<close> is 1,
  read SLEB128 \<open>offset\<close> and set \<open>addr = last_addr + offset\<close> (modulo \<open>2 ^ 64\<close>); else read
  fixed i64 \<open>addr\<close>".
\<close>

definition address_field :: "uint8_t \<Rightarrow> uint8_t list \<Rightarrow> bool" where
  "address_field packed address \<longleftrightarrow>
     (if isAddressDelta packed then sleb64 address else length address = 8)"

definition spec_address :: "uint64_t \<Rightarrow> uint8_t \<Rightarrow> uint8_t list \<Rightarrow> uint64_t" where
  "spec_address last_addr packed address =
     (if isAddressDelta packed then last_addr + of_int (fst (decodeSLEB128 address))
      else readNext_le address)"

text \<open>
  The wire format of the probe section, read with the specification's \<open>last_addr\<close>
  cursor. \<open>wire_probes last_addr n bs addrs\<close>: the bytes \<open>bs\<close> are \<open>n\<close> probe records,
  and \<open>addrs\<close> are their addresses when the cursor is \<open>last_addr\<close> before them; every
  record leaves its address in the cursor. \<open>wire_body toplevel g last_addr bs addrs\<close>: the
  bytes are a function body of the function \<open>g\<close> (without the inline site index when
  it is a top-level one), and \<open>addrs\<close> are the addresses of all its probe records, its own
  and then those of its inlinees, in the order of the bytes. \<open>wire_inlined\<close> is a
  sequence of inlined function bodies. \<open>wire_section last_addr bs recs\<close>: the bytes are a
  sequence of top-level function bodies, and \<open>recs\<close> are all the probe records in the
  order of the bytes, each with the GUID of its top-level function and its address. The
  cursor goes from each record to the next one in the bytes, whatever function either
  belongs to.
\<close>

inductive wire_probes :: "uint64_t \<Rightarrow> nat \<Rightarrow> uint8_t list \<Rightarrow> uint64_t list \<Rightarrow> bool" where
  no_probe: "wire_probes last_addr 0 [] []"
| probe: "uleb32 index \<Longrightarrow> address_field packed address \<Longrightarrow>
          wire_probes (spec_address last_addr packed address) n rest addrs \<Longrightarrow>
          wire_probes last_addr (Suc n) (index @ [packed] @ address @ rest)
            (spec_address last_addr packed address # addrs)"

inductive wire_body :: "bool \<Rightarrow> uint64_t \<Rightarrow> uint64_t \<Rightarrow> uint8_t list \<Rightarrow> uint64_t list \<Rightarrow> bool"
  and wire_inlined :: "uint64_t \<Rightarrow> nat \<Rightarrow> uint8_t list \<Rightarrow> uint64_t list \<Rightarrow> bool" where
  body: "(if toplevel then site = [] else uleb32 site) \<Longrightarrow> length guid = 8 \<Longrightarrow>
         uleb32 nprobes \<Longrightarrow> uleb32 ninlined \<Longrightarrow>
         wire_probes last_addr (fst (decodeULEB128 nprobes)) probes addrs \<Longrightarrow>
         wire_inlined (last (last_addr # addrs)) (fst (decodeULEB128 ninlined)) inlinees addrs' \<Longrightarrow>
         wire_body toplevel (readNext_le guid) last_addr
           (site @ guid @ nprobes @ ninlined @ probes @ inlinees) (addrs @ addrs')"
| no_body: "wire_inlined last_addr 0 [] []"
| inlined: "wire_body False g last_addr b addrs \<Longrightarrow>
            wire_inlined (last (last_addr # addrs)) n rest addrs' \<Longrightarrow>
            wire_inlined last_addr (Suc n) (b @ rest) (addrs @ addrs')"

inductive wire_section :: "uint64_t \<Rightarrow> uint8_t list \<Rightarrow> (uint64_t \<times> uint64_t) list \<Rightarrow> bool" where
  empty_section: "wire_section last_addr [] []"
| top_level: "wire_body True g last_addr b addrs \<Longrightarrow>
              wire_section (last (last_addr # addrs)) rest recs \<Longrightarrow>
              wire_section last_addr (b @ rest) (map (Pair g) addrs @ recs)"

text \<open>
  The records of the functions that pass the filter ("a non-empty GUID filter set is
  supplied and does not contain \<open>guid\<close>" drops a function), and the decoded probes of an
  address.
\<close>

definition kept :: "uint64_t set \<Rightarrow> (uint64_t \<times> uint64_t) list \<Rightarrow> uint64_t list" where
  "kept F recs = map snd (filter (\<lambda>r. F = {} \<or> fst r \<in> F) recs)"

definition decoded_at :: "MCPseudoProbeDecoder \<Rightarrow> uint64_t \<Rightarrow> MCDecodedPseudoProbe list" where
  "decoded_at d a = (case Address2ProbesMap d a of None \<Rightarrow> [] | Some ps \<Rightarrow> ps)"

text \<open>
  \<open>added d d' addrs\<close>: the address map of \<open>d'\<close> is that of \<open>d\<close> with one more probe for
  every address of \<open>addrs\<close>, as many times as it occurs there.
\<close>

definition added :: "MCPseudoProbeDecoder \<Rightarrow> MCPseudoProbeDecoder \<Rightarrow> uint64_t list \<Rightarrow> bool" where
  "added d d' addrs \<longleftrightarrow>
     (\<forall>a. \<exists>new. decoded_at d' a = decoded_at d a @ new \<and>
                 map Address new = replicate (count_list addrs a) a)"

text \<open>A step of the decoder that has left the tree and the address map as they were.\<close>

definition same_store :: "MCPseudoProbeDecoder \<Rightarrow> MCPseudoProbeDecoder \<Rightarrow> bool" where
  "same_store d d' \<longleftrightarrow> Nodes d' = Nodes d \<and> Address2ProbesMap d' = Address2ProbesMap d"

text \<open>The wire format of the descriptor section: GUID, hash, name size, name.\<close>

inductive desc_section :: "uint8_t list \<Rightarrow> bool" where
  no_desc: "desc_section []"
| desc: "length guid = 8 \<Longrightarrow> length hash = 8 \<Longrightarrow> uleb32 name_size \<Longrightarrow>
         length name = fst (decodeULEB128 name_size) \<Longrightarrow> desc_section rest \<Longrightarrow>
         desc_section (guid @ hash @ name_size @ name @ rest)"

text \<open>
  \<open>top_level_ancestor Ns n t\<close>: following the parent pointers from the node \<open>n\<close> leads
  to the node \<open>t\<close>, a child of the root.
\<close>

inductive top_level_ancestor :: "MCDecodedPseudoProbeInlineTree list \<Rightarrow> nat \<Rightarrow> nat \<Rightarrow> bool"
  for Ns :: "MCDecodedPseudoProbeInlineTree list" where
  top: "0 < n \<Longrightarrow> n < length Ns \<Longrightarrow> Parent (Ns ! n) = Some 0 \<Longrightarrow> top_level_ancestor Ns n n"
| up: "n < length Ns \<Longrightarrow> Parent (Ns ! n) = Some p \<Longrightarrow> 0 < p \<Longrightarrow>
       top_level_ancestor Ns p t \<Longrightarrow> top_level_ancestor Ns n t"

text \<open>
  The shape of the decoder's store that the build keeps: there is a root; the children
  of a node are nodes of the store other than the root and point back to it; the probes
  of the address map belong to such nodes; and, under a filter, every node other than
  the root has a top-level ancestor whose GUID passes the filter.
\<close>

definition store_inv :: "uint64_t set \<Rightarrow> MCPseudoProbeDecoder \<Rightarrow> bool" where
  "store_inv F d \<longleftrightarrow>
     Nodes d \<noteq> [] \<and>
     (\<forall>n < length (Nodes d). \<forall>(s, c) \<in> set (Children (Nodes d ! n)).
        0 < c \<and> c < length (Nodes d) \<and> Parent (Nodes d ! c) = Some n) \<and>
     (\<forall>a ps. Address2ProbesMap d a = Some ps \<longrightarrow>
        (\<forall>p \<in> set ps. 0 < InlineTree p \<and> InlineTree p < length (Nodes d))) \<and>
     (F \<noteq> {} \<longrightarrow>
        (\<forall>n. 0 < n \<and> n < length (Nodes d) \<longrightarrow>
           (\<exists>t. top_level_ancestor (Nodes d) n t \<and> Guid (Nodes d ! t) \<in> F)))"

subsection \<open>Example inputs\<close>

definition probe_ex :: MCPseudoProbe where
  "probe_ex = \<lparr>getLabel = 1, getGuid = 0xAAAA, getIndex = 1, getType = 2, getAttributes = 1\<rparr>"

definition MCOS_ex :: MCObjectStreamer where
  "MCOS_ex = \<lparr>evaluateAsAbsolute = (\<lambda>A B. Some (word_of_nat A - word_of_nat B)),
     getCodePointerSize = 8,
     getPseudoProbeSection = (\<lambda>S. if S = 0 then None else Some S), Emitted = []\<rparr>"

definition truncated_ex :: MCPseudoProbeDecoder where
  "truncated_ex = new_decoder\<lparr>Buf := [0x80, 0x80, 0x80], Data := 1, End := 3\<rparr>"

definition probeA :: MCPseudoProbe where
  "probeA = \<lparr>getLabel = 10, getGuid = 7, getIndex = 1, getType = 0, getAttributes = 0\<rparr>"

definition probeB :: MCPseudoProbe where
  "probeB = \<lparr>getLabel = 14, getGuid = 7, getIndex = 2, getType = 2, getAttributes = 0\<rparr>"

definition probeC :: MCPseudoProbe where
  "probeC = \<lparr>getLabel = 20, getGuid = 2, getIndex = 1, getType = 0, getAttributes = 0\<rparr>"

definition probeD :: MCPseudoProbe where
  "probeD = \<lparr>getLabel = 12, getGuid = 1, getIndex = 1, getType = 0, getAttributes = 1\<rparr>"

text \<open>
  A function with GUID 7 and two inlinees: GUID 2 at call site 3 and GUID 1 at call
  site 5.
\<close>

definition tree_ex :: MCPseudoProbeInlineTree where
  "tree_ex = Tree 7 [probeA, probeB]
     [((2, 3), Tree 2 [probeC] []), ((1, 5), Tree 1 [probeD] [])]"

definition divisions_ex :: "(MCSection \<times> MCPseudoProbeInlineTree) list" where
  "divisions_ex =
     [(1, Tree 0 [] [((7, 0), tree_ex)]),
      (0, Tree 0 [] [((7, 0), tree_ex)]),
      (2, Tree 0 [] [((1, 0), Tree 1 [probeD, probeA] [])])]"

text \<open>The order the claim names: call-site index first, then GUID.\<close>

fun callsite_first_less :: "InlineSite \<Rightarrow> InlineSite \<Rightarrow> bool" where
  "callsite_first_less (g1, i1) (g2, i2) = (i1 < i2 \<or> (i1 = i2 \<and> g1 < g2))"

definition delta_ex :: MCPseudoProbeDecoder where
  "delta_ex = new_decoder\<lparr>Buf := [0x7f], Data := 0, End := 1\<rparr>"

definition absolute_ex :: MCPseudoProbeDecoder where
  "absolute_ex = new_decoder\<lparr>Buf := [0x00, 0x10, 0, 0, 0, 0, 0, 0x80], Data := 0, End := 8\<rparr>"

text \<open>
  A decoded forest: the function A (GUID 10) with the function B (GUID 11) inlined at the
  call-site probe 7, and the block probe 1 of B.
\<close>

definition context_ex :: MCPseudoProbeDecoder where
  "context_ex = new_decoder
     \<lparr>GUID2FuncDescMap :=
        [10 \<mapsto> \<lparr>FuncGUID = 10, FuncHash = 0, FuncName = [0x41]\<rparr>,
         11 \<mapsto> \<lparr>FuncGUID = 11, FuncHash = 0, FuncName = [0x42]\<rparr>],
      Nodes :=
        [\<lparr>Guid = 0, ISite = (0, 0), Parent = None, Children = [((10, 0), 1)], Probes = []\<rparr>,
         \<lparr>Guid = 10, ISite = (10, 0), Parent = Some 0, Children = [((11, 7), 2)], Probes = []\<rparr>,
         \<lparr>Guid = 11, ISite = (11, 7), Parent = Some 1, Children = [], Probes = [(0x2000, 0)]\<rparr>]\<rparr>"

definition decoded_probe_ex :: MCDecodedPseudoProbe where
  "decoded_probe_ex = \<lparr>Address = 0x2000, ProbeGuid = 11, ProbeIndex = 1, ProbeType = 0,
     ProbeAttributes = 0, InlineTree = 2\<rparr>"

text \<open>
  The example of the source's comment: a probe of C with the inline stack
  \<open>[A, 88], [B, 66]\<close> (GUIDs 10, 11 and 12).
\<close>

definition probe_in_C :: MCPseudoProbe where
  "probe_in_C = \<lparr>getLabel = 30, getGuid = 12, getIndex = 4, getType = 0, getAttributes = 0\<rparr>"

definition stack_ex :: "InlineSite list" where
  "stack_ex = [(10, 88), (11, 66)]"

definition root_ex :: MCPseudoProbeInlineTree where
  "root_ex = Tree 0 [] [((10, 0), Tree 10 [probeA] [])]"

text \<open>
  A probe section with two top-level functions. The first (GUID 0xAA) has one probe at
  the absolute address 0x1000. The second (GUID 0xBB) has one probe, five bytes after
  the probe before it, and inlines the function 0xCC at the call-site probe 1, whose
  probe 2 is one byte before the probe before it.
\<close>

definition section_ex :: "uint8_t list" where
  "section_ex =
     [0xAA, 0, 0, 0, 0, 0, 0, 0, 1, 0,
        1, 0x00, 0x00, 0x10, 0, 0, 0, 0, 0, 0,
      0xBB, 0, 0, 0, 0, 0, 0, 0, 1, 1,
        1, 0x80, 5,
        1, 0xCC, 0, 0, 0, 0, 0, 0, 0, 1, 0,
          2, 0x80, 0x7f]"

text \<open>The decoder after \<open>section_ex\<close> was parsed with the filter \<open>{0xBB}\<close>.\<close>

definition decoded_ex :: MCPseudoProbeDecoder where
  "decoded_ex =
     \<lparr>Buf = section_ex, Data = 47, End = 47, GUID2FuncDescMap = Map.empty,
      Address2ProbesMap =
        [0x1005 \<mapsto>
           [\<lparr>Address = 0x1005, ProbeGuid = 0xBB, ProbeIndex = 1, ProbeType = 0,
              ProbeAttributes = 0, InlineTree = 1\<rparr>],
         0x1004 \<mapsto>
           [\<lparr>Address = 0x1004, ProbeGuid = 0xCC, ProbeIndex = 2, ProbeType = 0,
              ProbeAttributes = 0, InlineTree = 2\<rparr>]],
      Nodes =
        [\<lparr>Guid = 0, ISite = (0, 0), Parent = None, Children = [((0xBB, 0), 1)], Probes = []\<rparr>,
         \<lparr>Guid = 0xBB, ISite = (0xBB, 0), Parent = Some 0, Children = [((0xCC, 1), 2)],
            Probes = [(0x1005, 0)]\<rparr>,
         \<lparr>Guid = 0xCC, ISite = (0xCC, 1), Parent = Some 1, Children = [],
            Probes = [(0x1004, 0)]\<rparr>]\<rparr>"

text \<open>
  The probe records of \<open>section_ex\<close> in the order of the bytes, each with the GUID of its
  top-level function and its address: \<open>0x1000\<close>, five bytes after it, one byte before
  that.
\<close>

definition recs_ex :: "(uint64_t \<times> uint64_t) list" where
  "recs_ex = [(0xAA, 0x1000), (0xBB, 0x1005), (0xBB, 0x1004)]"

text \<open>The decoder at the inlined function body of \<open>section_ex\<close>, byte 33.\<close>

definition at_inlinee_ex :: MCPseudoProbeDecoder where
  "at_inlinee_ex = (start_at section_ex new_decoder)\<lparr>Data := 33\<rparr>"

text \<open>
  A descriptor section of one record (GUID \<open>0xAA\<close>, hash \<open>0x11\<close>, name "foo"); one cut
  after the GUID of its record; and a probe section cut inside its only probe record,
  after the probe index.
\<close>

definition desc_ex :: "uint8_t list" where
  "desc_ex = [0xAA, 0, 0, 0, 0, 0, 0, 0, 0x11, 0, 0, 0, 0, 0, 0, 0, 3, 0x66, 0x6f, 0x6f]"

definition desc_cut_ex :: "uint8_t list" where
  "desc_cut_ex = [0xAA, 0, 0, 0, 0, 0, 0, 0]"

definition probe_cut_ex :: "uint8_t list" where
  "probe_cut_ex = [0xAA, 0, 0, 0, 0, 0, 0, 0, 1, 0, 1]"

section \<open>Properties\<close>

subsection \<open>The packed flag/attribute/type byte\<close>

lemma le_15_take_bit: "(t::8 word) \<le> 15 \<Longrightarrow> t = take_bit 4 t"
proof -
  assume "t \<le> 15"
  then have "t < 2 ^ 4" by (simp add: word_le_nat_alt word_less_nat_alt)
  then have "t AND mask 4 = t" by (rule less_mask_eq)
  then show ?thesis by (simp add: take_bit_eq_mask)
qed

lemma le_7_take_bit: "(t::8 word) \<le> 7 \<Longrightarrow> t = take_bit 3 t"
proof -
  assume "t \<le> 7"
  then have "t < 2 ^ 3" by (simp add: word_le_nat_alt word_less_nat_alt)
  then have "t AND mask 3 = t" by (rule less_mask_eq)
  then show ?thesis by (simp add: take_bit_eq_mask)
qed

lemma c15: "(15::8 word) = mask 4" by (simp add: mask_eq_exp_minus_1)
lemma c70: "(0x70::8 word) = push_bit 4 (mask 3)" by (simp add: mask_eq_exp_minus_1)

lemma Kind_pack0:
  "Kind (f OR (take_bit 4 t OR push_bit 4 (take_bit 3 a))) = take_bit 4 t" if "\<And>n. bit f n \<Longrightarrow> n = 7"
  unfolding Kind_def c15
  by (rule bit_word_eqI) (auto simp: bit_simps dest: that)

lemma Attr_pack0:
  "Attr (f OR (take_bit 4 t OR push_bit 4 (take_bit 3 a))) = take_bit 3 a" if "\<And>n. bit f n \<Longrightarrow> n = 7"
  unfolding Attr_def c70
  by (rule bit_word_eqI) (auto simp: bit_simps dest: that)

lemma bit_flag: "bit (push_bit 7 (1::8 word)) n \<longleftrightarrow> n = 7"
  unfolding bit_push_bit_iff by (auto simp: bit_1_iff)

lemma c80: "(0x80::8 word) = push_bit 7 1"
  by simp

lemma and_flag_clear:
  assumes "\<And>n. bit f n \<longleftrightarrow> n = 7"
  shows "(0 OR (take_bit 4 t OR push_bit 4 (take_bit 3 a))) AND (f::8 word) = 0"
  by (rule bit_word_eqI) (auto simp: bit_simps assms)

lemma and_flag_set:
  assumes "\<And>n. bit f n \<longleftrightarrow> n = 7"
  shows "(f OR y) AND (f::8 word) \<noteq> 0"
proof -
  have "bit ((f OR y) AND f) 7" by (simp add: bit_simps assms)
  show ?thesis
  proof
    assume "(f OR y) AND f = 0"
    with \<open>bit ((f OR y) AND f) 7\<close> have "bit (0::8 word) 7" by simp
    then show False by simp
  qed
qed

lemma Flag_pack_clear:
  "isAddressDelta (0 OR (take_bit 4 t OR push_bit 4 (take_bit 3 a))) = False"
  unfolding isAddressDelta_def c80 using and_flag_clear [OF bit_flag] by blast

lemma Flag_pack_set:
  "isAddressDelta (push_bit 7 AddressDelta OR y) = True"
  unfolding isAddressDelta_def AddressDelta_def c80 using and_flag_set [OF bit_flag] by blast

lemma flag_bits: "bit (push_bit 7 AddressDelta) n \<Longrightarrow> n = 7"
  unfolding AddressDelta_def bit_flag .

text \<open>
  C5: for a probe with \<open>Type \<le> 15\<close> and \<open>Attributes \<le> 7\<close> the emitter succeeds and
  emits the index, one packed byte and the address item; the decoder's three field
  extractions applied to that byte give back the type and the attributes, and the
  address-delta flag is set exactly when a previous probe was supplied.
\<close>

theorem packed_byte_roundtrip:
  assumes "getType P \<le> 15" and "getAttributes P \<le> 7"
  shows "\<exists>b a. Emitted (the (MCPseudoProbe_emit P LastProbe MCOS)) =
            Emitted MCOS @ [ULEB128IntValue (getIndex P), Int8 b, a]
          \<and> MCPseudoProbe_emit P LastProbe MCOS \<noteq> None
          \<and> Kind b = getType P \<and> Attr b = getAttributes P
          \<and> (isAddressDelta b \<longleftrightarrow> LastProbe \<noteq> None)"
proof -
  obtain t a where t: "getType P = take_bit 4 t" and a: "getAttributes P = take_bit 3 a"
    using le_15_take_bit [OF assms(1)] le_7_take_bit [OF assms(2)] by blast
  have le: "take_bit 4 t \<le> 15" "take_bit 3 a \<le> 7"
    using assms by (simp_all add: t a)
  show ?thesis
  proof (cases LastProbe)
    case None
    then show ?thesis
      using le Kind_pack0 [of 0 t a] Attr_pack0 [of 0 t a] Flag_pack_clear [of t a]
      by (simp add: MCPseudoProbe_emit_def emitItem_def t a Let_def)
  next
    case (Some L)
    then show ?thesis
      using le Kind_pack0 [of "push_bit 7 AddressDelta" t a, OF flag_bits]
        Attr_pack0 [of "push_bit 7 AddressDelta" t a, OF flag_bits] Flag_pack_set
      by (simp add: MCPseudoProbe_emit_def emitItem_def t a Let_def split: option.split)
  qed
qed

theorem packed_byte_roundtrip_witness:
  "getType probe_ex \<le> 15 \<and> getAttributes probe_ex \<le> 7 \<and>
   (\<exists>b a. Emitted (the (MCPseudoProbe_emit probe_ex (Some probe_ex) MCOS_ex)) =
            Emitted MCOS_ex @ [ULEB128IntValue (getIndex probe_ex), Int8 b, a]
          \<and> MCPseudoProbe_emit probe_ex (Some probe_ex) MCOS_ex \<noteq> None
          \<and> Kind b = getType probe_ex \<and> Attr b = getAttributes probe_ex
          \<and> (isAddressDelta b \<longleftrightarrow> Some probe_ex \<noteq> None))"
proof -
  have h: "getType probe_ex \<le> 15" "getAttributes probe_ex \<le> 7"
    by (simp_all add: probe_ex_def)
  show ?thesis
    using h packed_byte_roundtrip [OF h, of "Some probe_ex" MCOS_ex] by blast
qed

subsection \<open>The read primitives\<close>

text \<open>
  C10: each of the four read primitives leaves the decoder, and with it the \<open>Data\<close>
  cursor, as it was when it returns an error; \<open>Data\<close> differs after the call only when
  the call succeeded.
\<close>

theorem read_primitives_atomic:
  "(fst (readUnencodedNumber d :: 'a::len word option \<times> MCPseudoProbeDecoder) = None
      \<longrightarrow> Data (snd (readUnencodedNumber d :: 'a word option \<times> MCPseudoProbeDecoder)) = Data d)
   \<and> (fst (readUnsignedNumber d :: 'b::len word option \<times> MCPseudoProbeDecoder) = None
      \<longrightarrow> Data (snd (readUnsignedNumber d :: 'b word option \<times> MCPseudoProbeDecoder)) = Data d)
   \<and> (fst (readSignedNumber d :: 'c::len word option \<times> MCPseudoProbeDecoder) = None
      \<longrightarrow> Data (snd (readSignedNumber d :: 'c word option \<times> MCPseudoProbeDecoder)) = Data d)
   \<and> (fst (readString Size d) = None \<longrightarrow> Data (snd (readString Size d)) = Data d)"
  by (simp add: readUnencodedNumber_def readUnsignedNumber_def readSignedNumber_def
      readString_def Let_def split: prod.split)

theorem read_primitives_atomic_witness:
  "fst (readUnencodedNumber truncated_ex :: uint64_t option \<times> MCPseudoProbeDecoder) = None
   \<and> Data (snd (readUnencodedNumber truncated_ex :: uint64_t option \<times> MCPseudoProbeDecoder)) = 1
   \<and> fst (readUnsignedNumber truncated_ex :: uint32_t option \<times> MCPseudoProbeDecoder) = None
   \<and> Data (snd (readUnsignedNumber truncated_ex :: uint32_t option \<times> MCPseudoProbeDecoder)) = 1
   \<and> fst (readSignedNumber truncated_ex :: int64_t option \<times> MCPseudoProbeDecoder) = None
   \<and> Data (snd (readSignedNumber truncated_ex :: int64_t option \<times> MCPseudoProbeDecoder)) = 1
   \<and> fst (readString 3 truncated_ex) = None
   \<and> Data (snd (readString 3 truncated_ex)) = 1"
proof -
  have 1: "fst (readUnencodedNumber truncated_ex :: uint64_t option \<times> MCPseudoProbeDecoder) = None"
    by (simp add: readUnencodedNumber_def truncated_ex_def new_decoder_def)
  have 2: "fst (readUnsignedNumber truncated_ex :: uint32_t option \<times> MCPseudoProbeDecoder) = None"
    by (simp add: readUnsignedNumber_def truncated_ex_def new_decoder_def)
  have 3: "fst (readSignedNumber truncated_ex :: int64_t option \<times> MCPseudoProbeDecoder) = None"
    by (simp add: readSignedNumber_def truncated_ex_def new_decoder_def)
  have 4: "fst (readString 3 truncated_ex) = None"
    by (simp add: readString_def truncated_ex_def new_decoder_def)
  have 5: "Data truncated_ex = 1"
    by (simp add: truncated_ex_def)
  show ?thesis
    using 1 2 3 4 5
      read_primitives_atomic [where 'a = 64 and 'b = 32 and 'c = 64, of truncated_ex 3]
    by simp
qed

subsection \<open>Emission order\<close>

lemma InlineSite_less_trans:
  "InlineSite_less a b \<Longrightarrow> InlineSite_less b c \<Longrightarrow> InlineSite_less a c"
  by (cases a; cases b; cases c) auto

lemma InlineSite_less_total:
  "\<not> InlineSite_less a b \<Longrightarrow> \<not> InlineSite_less b a \<Longrightarrow> a = b"
  by (cases a; cases b) auto

lemma InlineSite_less_irrefl: "\<not> InlineSite_less a a"
  by (cases a) auto

lemma Inlinees_insert_Cons:
  "InlineSite_less K K' \<and> Inlinees_insert K V ((K', V') # M) = (K, V) # (K', V') # M
   \<or> InlineSite_less K' K \<and> K \<noteq> K' \<and>
       Inlinees_insert K V ((K', V') # M) = (K', V') # Inlinees_insert K V M
   \<or> K = K' \<and> Inlinees_insert K V ((K', V') # M) = (K', V) # M"
proof (cases "InlineSite_less K K'")
  case True
  then show ?thesis by simp
next
  case False
  note nl = this
  show ?thesis
  proof (cases "InlineSite_less K' K")
    case True
    then have "K \<noteq> K'" using InlineSite_less_irrefl [of K'] by auto
    then show ?thesis using True nl by simp
  next
    case False
    then have "K = K'" using nl InlineSite_less_total by blast
    then show ?thesis using nl False by simp
  qed
qed

lemma keys_Inlinees_insert:
  "fst ` set (Inlinees_insert K V M) = insert K (fst ` set M)"
proof (induction M)
  case Nil
  then show ?case by simp
next
  case (Cons a M)
  obtain K' V' where a: "a = (K', V')" by (cases a)
  from Inlinees_insert_Cons [of K K' V V' M] consider
      (lt) "Inlinees_insert K V ((K', V') # M) = (K, V) # (K', V') # M"
    | (gt) "Inlinees_insert K V ((K', V') # M) = (K', V') # Inlinees_insert K V M"
    | (eq) "K = K'" "Inlinees_insert K V ((K', V') # M) = (K', V) # M"
    by blast
  then show ?case
  proof cases
    case lt
    then show ?thesis by (simp del: Inlinees_insert.simps add: a)
  next
    case gt
    then show ?thesis by (simp del: Inlinees_insert.simps add: a Cons insert_commute)
  next
    case eq
    then show ?thesis by (simp del: Inlinees_insert.simps add: a)
  qed
qed

lemma sorted_Inlinees_insert:
  "sorted_wrt InlineSite_less (map fst M) \<Longrightarrow>
     sorted_wrt InlineSite_less (map fst (Inlinees_insert K V M))"
proof (induction M)
  case Nil
  then show ?case by simp
next
  case (Cons a M)
  obtain K' V' where a: "a = (K', V')" by (cases a)
  show ?case
  proof (cases "InlineSite_less K K'")
    case True
    then show ?thesis
      using Cons.prems a by (auto intro: InlineSite_less_trans)
  next
    case False
    note nl = this
    show ?thesis
    proof (cases "InlineSite_less K' K")
      case True
      have "\<forall>x \<in> fst ` set (Inlinees_insert K V M). InlineSite_less K' x"
        using Cons.prems a True by (auto simp: keys_Inlinees_insert)
      then show ?thesis
        using Cons a nl True by auto
    next
      case False
      then show ?thesis using Cons.prems a nl by auto
    qed
  qed
qed

lemma sorted_Inlinees:
  "sorted_wrt InlineSite_less (map fst M) \<Longrightarrow>
     sorted_wrt InlineSite_less (map fst (Inlinees Cs M))"
  by (induction Cs M rule: Inlinees.induct) (auto intro: sorted_Inlinees_insert)

lemma set_Inlinees_insert:
  "K \<notin> fst ` set M \<Longrightarrow>
     set (Inlinees_insert K V M) = insert (K, V) (set M) \<and>
     length (Inlinees_insert K V M) = Suc (length M)"
proof (induction M)
  case Nil
  then show ?case by simp
next
  case (Cons a M)
  obtain K' V' where a: "a = (K', V')" by (cases a)
  have k: "K \<noteq> K'" "K \<notin> fst ` set M" using Cons.prems a by auto
  from Inlinees_insert_Cons [of K K' V V' M] k(1) consider
      (lt) "Inlinees_insert K V ((K', V') # M) = (K, V) # (K', V') # M"
    | (gt) "Inlinees_insert K V ((K', V') # M) = (K', V') # Inlinees_insert K V M"
    by blast
  then show ?case
  proof cases
    case lt
    then show ?thesis by (simp del: Inlinees_insert.simps add: a)
  next
    case gt
    then show ?thesis
      using Cons.IH [OF k(2)] by (simp del: Inlinees_insert.simps add: a insert_commute)
  qed
qed

lemma set_Inlinees:
  "distinct (map fst Cs) \<Longrightarrow> fst ` set Cs \<inter> fst ` set M = {} \<Longrightarrow>
     set (Inlinees Cs M) = set Cs \<union> set M \<and> length (Inlinees Cs M) = length Cs + length M"
proof (induction Cs M rule: Inlinees.induct)
  case (1 M)
  then show ?case by simp
next
  case (2 K V Cs M)
  have k: "K \<notin> fst ` set M" using 2(3) by auto
  have "fst ` set Cs \<inter> fst ` set (Inlinees_insert K V M) = {}"
    using 2(2,3) by (auto simp: keys_Inlinees_insert)
  with 2 have "set (Inlinees Cs (Inlinees_insert K V M)) = set Cs \<union> set (Inlinees_insert K V M)
      \<and> length (Inlinees Cs (Inlinees_insert K V M)) = length Cs + length (Inlinees_insert K V M)"
    by simp
  then show ?case
    using set_Inlinees_insert [OF k, of V] by simp
qed

lemma last_probe_append:
  "last_probe L (Es @ Fs) = last_probe (last_probe L Es) Fs"
  by (induction L Es rule: last_probe.induct) auto

lemma spec_event_stream_append:
  "spec_event_stream MCOS L (Es @ Fs) =
     spec_event_stream MCOS L Es @ spec_event_stream MCOS (last_probe L Es) Fs"
  by (induction MCOS L Es rule: spec_event_stream.induct) auto

lemma spec_address_field_Emitted [simp]:
  "spec_address_field (MCOS\<lparr>Emitted := x\<rparr>) P L = spec_address_field MCOS P L"
  by (auto simp: spec_address_field_def split: option.split)

lemma spec_probe_records_Emitted [simp]:
  "spec_probe_records (MCOS\<lparr>Emitted := x\<rparr>) L Ps = spec_probe_records MCOS L Ps"
  by (induction Ps arbitrary: L) simp_all

lemma spec_event_stream_Emitted [simp]:
  "spec_event_stream (MCOS\<lparr>Emitted := x\<rparr>) L Es = spec_event_stream MCOS L Es"
  by (induction "MCOS\<lparr>Emitted := x\<rparr>" L Es rule: spec_event_stream.induct) simp_all

lemma spec_section_stream_Emitted [simp]:
  "spec_section_stream (MCOS\<lparr>Emitted := x\<rparr>) Divs = spec_section_stream MCOS Divs"
  by (induction Divs) (auto split: option.split)

lemma filter_spec_probe_records:
  "filter is_mark (spec_probe_records MCOS L Ps) = spec_event_stream MCOS L (map Record Ps)"
  by (induction Ps arbitrary: L)
    (auto simp: spec_address_field_def split: option.split)

lemma last_probe_Records:
  "last_probe L (map Record Ps) = (if Ps = [] then L else Some (last Ps))"
  by (induction Ps arbitrary: L) auto

lemma MCPseudoProbe_emit_Some:
  assumes "MCPseudoProbe_emit P LastProbe MCOS = Some MCOS'"
  shows "MCOS' = MCOS\<lparr>Emitted := Emitted MCOS @ spec_probe_records MCOS LastProbe [P]\<rparr>"
    and "encodable P"
  using assms
  by (auto simp: MCPseudoProbe_emit_def emitItem_def Let_def spec_packed_byte_def encodable_def
      spec_address_field_def AddressDelta_def split: if_splits option.splits)

lemma emitProbes_Some:
  "emitProbes Ps LastProbe MCOS = Some (L', MCOS') \<Longrightarrow>
     MCOS' = MCOS\<lparr>Emitted := Emitted MCOS @ spec_probe_records MCOS LastProbe Ps\<rparr>
     \<and> L' = last_probe LastProbe (map Record Ps) \<and> (\<forall>P \<in> set Ps. encodable P)"
proof (induction Ps arbitrary: LastProbe MCOS)
  case Nil
  then show ?case by simp
next
  case (Cons P Ps)
  from Cons.prems obtain M1 where 1: "MCPseudoProbe_emit P LastProbe MCOS = Some M1"
    and 2: "emitProbes Ps (Some P) M1 = Some (L', MCOS')"
    by (auto split: option.splits)
  note e = MCPseudoProbe_emit_Some [OF 1]
  from Cons.IH [OF 2] e show ?case
    by simp
qed

lemma emits_Nil: "emits MCOS L [] L (MCOS\<lparr>Emitted := Emitted MCOS @ items\<rparr>)"
  if "filter is_mark items = []"
  using that by (auto simp: emits_def)

lemma emits_append:
  assumes "emits MCOS L Es L1 M1" and "emits M1 L1 Fs L2 M2"
  shows "emits MCOS L (Es @ Fs) L2 M2"
proof -
  from assms(1) obtain xs where 1: "M1 = MCOS\<lparr>Emitted := Emitted MCOS @ xs\<rparr>"
    "filter is_mark xs = spec_event_stream MCOS L Es" "L1 = last_probe L Es"
    by (auto simp: emits_def)
  from assms(2) obtain ys where 2: "M2 = M1\<lparr>Emitted := Emitted M1 @ ys\<rparr>"
    "filter is_mark ys = spec_event_stream M1 L1 Fs" "L2 = last_probe L1 Fs"
    by (auto simp: emits_def)
  have "M2 = MCOS\<lparr>Emitted := Emitted MCOS @ (xs @ ys)\<rparr>"
    using 1 2 by simp
  moreover have "filter is_mark (xs @ ys) = spec_event_stream MCOS L (Es @ Fs)"
    using 1 2 by (simp add: spec_event_stream_append)
  moreover have "L2 = last_probe L (Es @ Fs)"
    using 1 2 by (simp add: last_probe_append)
  moreover have "\<forall>P. Record P \<in> set (Es @ Fs) \<longrightarrow> encodable P"
    using assms by (auto simp: emits_def)
  ultimately show ?thesis
    unfolding emits_def by blast
qed

lemma emits_emitItem:
  "\<not> is_mark x \<Longrightarrow> emits (emitItem x MCOS) L Es L' M' \<Longrightarrow> emits MCOS L Es L' M'"
proof -
  assume x: "\<not> is_mark x" and e: "emits (emitItem x MCOS) L Es L' M'"
  have "emits MCOS L [] L (emitItem x MCOS)"
    unfolding emitItem_def using x by (intro emits_Nil) simp
  from emits_append [OF this e] show ?thesis by simp
qed

lemma emits_Group:
  "emits (emitItem (Int64 G) MCOS) L Es L' M' \<Longrightarrow> emits MCOS L (Group G # Es) L' M'"
proof -
  assume e: "emits (emitItem (Int64 G) MCOS) L Es L' M'"
  have "emits MCOS L [Group G] L (emitItem (Int64 G) MCOS)"
    by (auto simp: emits_def emitItem_def)
  from emits_append [OF this e] show ?thesis by simp
qed

lemma emits_emitProbes:
  "emitProbes Ps L MCOS = Some (L', M') \<Longrightarrow> emits MCOS L (map Record Ps) L' M'"
  using emitProbes_Some [of Ps L MCOS L' M'] filter_spec_probe_records [of MCOS L Ps]
  unfolding emits_def by auto

lemma emit_tree_emits:
  "MCPseudoProbeInlineTree_emit T LastProbe MCOS = Some (L', MCOS') \<Longrightarrow>
     emits MCOS LastProbe (tree_events T) L' MCOS'"
  "emitInlinees nonRoot M LastProbe MCOS = Some (L', MCOS') \<Longrightarrow>
     emits MCOS LastProbe (inlinees_events M) L' MCOS'"
proof (induction T LastProbe MCOS and nonRoot M LastProbe MCOS arbitrary: L' MCOS' and L' MCOS'
    rule: MCPseudoProbeInlineTree_emit_emitInlinees.induct)
  case (1 G Ps Cs LastProbe MCOS)
  define hdr where "hdr = emitItem (ULEB128IntValue (word_of_nat (length Cs)))
                (emitItem (ULEB128IntValue (word_of_nat (length Ps))) (emitItem (Int64 G) MCOS))"
  define grp where "grp = (if G \<noteq> 0 then emitProbes Ps LastProbe hdr
              else if Ps = [] then Some (LastProbe, MCOS) else None)"
  have eq: "MCPseudoProbeInlineTree_emit (Tree G Ps Cs) LastProbe MCOS =
      (case grp of None \<Rightarrow> None
       | Some (L, M) \<Rightarrow> emitInlinees (G \<noteq> 0) (Inlinees Cs []) L M)"
    unfolding grp_def hdr_def by (simp only: MCPseudoProbeInlineTree_emit.simps)
  from "1.prems" eq obtain L1 M1 where g: "grp = Some (L1, M1)"
    and i: "emitInlinees (G \<noteq> 0) (Inlinees Cs []) L1 M1 = Some (L', MCOS')"
    by (cases grp) auto
  have a: "emits MCOS LastProbe (if G \<noteq> 0 then Group G # map Record Ps else []) L1 M1"
  proof (cases "G = 0")
    case True
    then have "Ps = []" "L1 = LastProbe" "M1 = MCOS"
      using g unfolding grp_def by (simp_all split: if_splits)
    then show ?thesis using True emits_Nil [of "[]" MCOS LastProbe] by simp
  next
    case False
    then have "emitProbes Ps LastProbe hdr = Some (L1, M1)" using g unfolding grp_def by simp
    then have "emits hdr LastProbe (map Record Ps) L1 M1" by (rule emits_emitProbes)
    then have "emits (emitItem (ULEB128IntValue (word_of_nat (length Ps)))
                 (emitItem (Int64 G) MCOS)) LastProbe (map Record Ps) L1 M1"
      unfolding hdr_def by (rule emits_emitItem [rotated]) simp
    then have "emits (emitItem (Int64 G) MCOS) LastProbe (map Record Ps) L1 M1"
      by (rule emits_emitItem [rotated]) simp
    then have "emits MCOS LastProbe (Group G # map Record Ps) L1 M1"
      by (rule emits_Group)
    then show ?thesis using False by simp
  qed
  have b: "emits M1 L1 (inlinees_events (Inlinees Cs [])) L' MCOS'"
    using "1.IH" [of "(L1, M1)" L1 M1 L' MCOS'] g i unfolding grp_def hdr_def by simp
  show ?case using emits_append [OF a b] by (simp only: tree_events.simps)
next
  case (2 nonRoot LastProbe MCOS)
  then show ?case using emits_Nil [of "[]" MCOS LastProbe] by simp
next
  case (3 nonRoot Site Inlinee M LastProbe MCOS)
  define M0 where "M0 = (if nonRoot then emitItem (ULEB128IntValue (ucast (snd Site))) MCOS else MCOS)"
  have eq: "emitInlinees nonRoot ((Site, Inlinee) # M) LastProbe MCOS =
      (case MCPseudoProbeInlineTree_emit Inlinee LastProbe M0 of None \<Rightarrow> None
       | Some (L, M') \<Rightarrow> emitInlinees nonRoot M L M')"
    unfolding M0_def by (simp only: emitInlinees.simps)
  from "3.prems" eq obtain L1 M1 where
    t: "MCPseudoProbeInlineTree_emit Inlinee LastProbe M0 = Some (L1, M1)"
    and i: "emitInlinees nonRoot M L1 M1 = Some (L', MCOS')"
    by (cases "MCPseudoProbeInlineTree_emit Inlinee LastProbe M0") auto
  have "emits M0 LastProbe (tree_events Inlinee) L1 M1"
    using "3.IH"(1) [of L1 M1] t unfolding M0_def by simp
  then have a: "emits MCOS LastProbe (tree_events Inlinee) L1 M1"
    using emits_emitItem [of "ULEB128IntValue (ucast (snd Site))" MCOS LastProbe
        "tree_events Inlinee" L1 M1]
    unfolding M0_def by (cases nonRoot) simp_all
  have b: "emits M1 L1 (inlinees_events M) L' MCOS'"
    using "3.IH"(2) [of "(L1, M1)" L1 M1 L' MCOS'] t i unfolding M0_def by simp
  show ?case using emits_append [OF a b] by (simp only: inlinees_events.simps)
qed

lemma inlinees_events_concat:
  "inlinees_events M = concat (map (tree_events \<circ> snd) M)"
  by (induction M) auto

text \<open>
  C2 (counterexample): the node \<open>tree_ex\<close> has the children \<open>(guid 2, call site 3)\<close> and
  \<open>(guid 1, call site 5)\<close>. The emitter visits the child at call site 5 first: the keys
  of \<open>Inlinees\<close> are not ascending in the order that compares the call-site index first,
  and the group of GUID 1 is emitted before the group of GUID 2.
\<close>

theorem children_emitted_in_callsite_order_counterexample:
  "map fst (Inlinees (Tree_Children tree_ex) []) = [(1, 5), (2, 3)]
   \<and> \<not> sorted_wrt callsite_first_less (map fst (Inlinees (Tree_Children tree_ex) []))
   \<and> map_option (Emitted \<circ> snd) (MCPseudoProbeInlineTree_emit tree_ex None MCOS_ex) =
       Some [Int64 7, ULEB128IntValue 2, ULEB128IntValue 2,
             ULEB128IntValue 1, Int8 0, SymbolValue 10 8,
             ULEB128IntValue 2, Int8 130, SLEB128IntValue 4,
             ULEB128IntValue 5, Int64 1, ULEB128IntValue 1, ULEB128IntValue 0,
             ULEB128IntValue 1, Int8 144, SLEB128IntValue (- 2),
             ULEB128IntValue 3, Int64 2, ULEB128IntValue 1, ULEB128IntValue 0,
             ULEB128IntValue 1, Int8 128, SLEB128IntValue 8]"
  by (simp add: tree_ex_def MCOS_ex_def emitItem_def probeA_def probeB_def probeC_def
      probeD_def MCPseudoProbe_emit_def AddressDelta_def)

text \<open>
  C2 (amended): the children of a node are iterated in ascending order of the inline
  site compared as the tuple it is, the GUID first and the call-site index to break ties;
  every child is iterated. The marks of what a node emits are its header, its probes in
  the order of the list (insertion order), and then what the children emit in that
  order.
\<close>

theorem children_emitted_in_guid_order:
  "sorted_wrt InlineSite_less (map fst (Inlinees Cs []))
   \<and> (distinct (map fst Cs) \<longrightarrow> set (Inlinees Cs []) = set Cs)
   \<and> tree_events (Tree G Ps Cs) =
       (if G \<noteq> 0 then Group G # map Record Ps else [])
         @ concat (map (tree_events \<circ> snd) (Inlinees Cs []))
   \<and> (MCPseudoProbeInlineTree_emit (Tree G Ps Cs) LastProbe MCOS = Some (L', MCOS') \<longrightarrow>
        (\<exists>items. Emitted MCOS' = Emitted MCOS @ items
           \<and> filter is_mark items = spec_event_stream MCOS LastProbe (tree_events (Tree G Ps Cs))))"
proof (intro conjI impI)
  show "sorted_wrt InlineSite_less (map fst (Inlinees Cs []))"
    by (rule sorted_Inlinees) simp
  show "set (Inlinees Cs []) = set Cs" if "distinct (map fst Cs)"
    using set_Inlinees [of Cs "[]"] that by simp
  show "tree_events (Tree G Ps Cs) =
       (if G \<noteq> 0 then Group G # map Record Ps else [])
         @ concat (map (tree_events \<circ> snd) (Inlinees Cs []))"
    by (simp only: tree_events.simps inlinees_events_concat)
  show "\<exists>items. Emitted MCOS' = Emitted MCOS @ items
           \<and> filter is_mark items = spec_event_stream MCOS LastProbe (tree_events (Tree G Ps Cs))"
    if "MCPseudoProbeInlineTree_emit (Tree G Ps Cs) LastProbe MCOS = Some (L', MCOS')"
    using emit_tree_emits(1) [OF that] unfolding emits_def by auto
qed

theorem children_emitted_in_guid_order_witness:
  "distinct (map fst (Tree_Children tree_ex))
   \<and> set (Inlinees (Tree_Children tree_ex) []) = set (Tree_Children tree_ex)
   \<and> MCPseudoProbeInlineTree_emit tree_ex None MCOS_ex \<noteq> None
   \<and> filter is_mark (Emitted (snd (the (MCPseudoProbeInlineTree_emit tree_ex None MCOS_ex)))) =
       [Int64 7, Int8 0, SymbolValue 10 8, Int8 130, SLEB128IntValue 4,
        Int64 1, Int8 144, SLEB128IntValue (- 2), Int64 2, Int8 128, SLEB128IntValue 8]"
proof -
  have d: "distinct (map fst [((2, 3), Tree 2 [probeC] []), ((1, 5), Tree 1 [probeD] [])
      :: InlineSite \<times> MCPseudoProbeInlineTree])"
    by simp
  obtain L' MCOS' where e: "MCPseudoProbeInlineTree_emit
      (Tree 7 [probeA, probeB] [((2, 3), Tree 2 [probeC] []), ((1, 5), Tree 1 [probeD] [])])
      None MCOS_ex = Some (L', MCOS')"
    by (simp add: MCOS_ex_def emitItem_def probeA_def probeB_def probeC_def
        probeD_def MCPseudoProbe_emit_def AddressDelta_def)
  note t = children_emitted_in_guid_order [of
      "[((2, 3), Tree 2 [probeC] []), ((1, 5), Tree 1 [probeD] [])]" 7 "[probeA, probeB]"
      None MCOS_ex L' MCOS']
  from t d have s: "set (Inlinees [((2, 3), Tree 2 [probeC] []), ((1, 5), Tree 1 [probeD] [])] []) =
      set [((2, 3), Tree 2 [probeC] []), ((1, 5), Tree 1 [probeD] [])]"
    by blast
  from t e obtain items where i: "Emitted MCOS' = Emitted MCOS_ex @ items"
    "filter is_mark items = spec_event_stream MCOS_ex None (tree_events
       (Tree 7 [probeA, probeB] [((2, 3), Tree 2 [probeC] []), ((1, 5), Tree 1 [probeD] [])]))"
    by blast
  have "Emitted MCOS_ex = []" by (simp add: MCOS_ex_def)
  with i have "filter is_mark (Emitted MCOS') = spec_event_stream MCOS_ex None (tree_events
       (Tree 7 [probeA, probeB] [((2, 3), Tree 2 [probeC] []), ((1, 5), Tree 1 [probeD] [])]))"
    by simp
  also have "\<dots> = [Int64 7, Int8 0, SymbolValue 10 8, Int8 130, SLEB128IntValue 4,
        Int64 1, Int8 144, SLEB128IntValue (- 2), Int64 2, Int8 128, SLEB128IntValue 8]"
    by (simp add: MCOS_ex_def probeA_def probeB_def probeC_def probeD_def
        spec_packed_byte_def spec_address_field_def)
  finally show ?thesis
    using d s e by (simp add: tree_ex_def)
qed

lemma encodable_packed_flag:
  assumes "encodable P"
  shows "isAddressDelta (spec_packed_byte P L) \<longleftrightarrow> L \<noteq> None"
proof -
  obtain t a where t: "getType P = take_bit 4 t" and a: "getAttributes P = take_bit 3 a"
    using le_15_take_bit [of "getType P"] le_7_take_bit [of "getAttributes P"] assms
    unfolding encodable_def by blast
  have e: "(0x80 :: uint8_t) = push_bit 7 AddressDelta" by (simp add: AddressDelta_def)
  show ?thesis
  proof (cases L)
    case None
    then show ?thesis using Flag_pack_clear [of t a] by (simp add: spec_packed_byte_def t a)
  next
    case (Some Q)
    then show ?thesis
      using Flag_pack_set [of "getType P OR push_bit 4 (getAttributes P)"]
      unfolding spec_packed_byte_def e by simp
  qed
qed

lemma MCPseudoProbeSection_emit_Some:
  "MCPseudoProbeSection_emit Divs MCOS = Some MCOS' \<Longrightarrow>
     (\<exists>items. MCOS' = MCOS\<lparr>Emitted := Emitted MCOS @ items\<rparr>
        \<and> filter is_mark items = spec_section_stream MCOS Divs)
     \<and> (\<forall>Sec T S P. (Sec, T) \<in> set Divs \<longrightarrow> getPseudoProbeSection MCOS Sec = Some S \<longrightarrow>
           Record P \<in> set (tree_events T) \<longrightarrow> encodable P)"
proof (induction Divs arbitrary: MCOS)
  case Nil
  then have "MCOS' = MCOS\<lparr>Emitted := Emitted MCOS @ []\<rparr>" by simp
  then show ?case by (intro conjI exI [of _ "[]"]) simp_all
next
  case (Cons D Divs)
  obtain Sec T where D: "D = (Sec, T)" by (cases D)
  show ?case
  proof (cases "getPseudoProbeSection MCOS Sec")
    case None
    then have "MCPseudoProbeSection_emit Divs MCOS = Some MCOS'"
      using Cons.prems D by simp
    from Cons.IH [OF this] None D show ?thesis by auto
  next
    case (Some S)
    define M0 where "M0 = emitItem (SwitchSection S) MCOS"
    from Cons.prems D Some obtain L1 M1 where
      t: "MCPseudoProbeInlineTree_emit T None M0 = Some (L1, M1)"
      and r: "MCPseudoProbeSection_emit Divs M1 = Some MCOS'"
      unfolding M0_def by (auto split: option.splits)
    from emit_tree_emits(1) [OF t] obtain xs where
      xs: "M1 = M0\<lparr>Emitted := Emitted M0 @ xs\<rparr>"
        "filter is_mark xs = spec_event_stream M0 None (tree_events T)"
      and enc: "\<forall>P. Record P \<in> set (tree_events T) \<longrightarrow> encodable P"
      unfolding emits_def by blast
    from Cons.IH [OF r] obtain ys where
      ys: "MCOS' = M1\<lparr>Emitted := Emitted M1 @ ys\<rparr>"
        "filter is_mark ys = spec_section_stream M1 Divs"
      and enc': "\<forall>Sec T S P. (Sec, T) \<in> set Divs \<longrightarrow> getPseudoProbeSection M1 Sec = Some S \<longrightarrow>
           Record P \<in> set (tree_events T) \<longrightarrow> encodable P"
      by blast
    have m1: "M1 = MCOS\<lparr>Emitted := Emitted MCOS @ SwitchSection S # xs\<rparr>"
      using xs(1) by (simp add: M0_def emitItem_def)
    have "MCOS' = MCOS\<lparr>Emitted := Emitted MCOS @ (SwitchSection S # xs @ ys)\<rparr>"
      using ys(1) m1 by simp
    moreover have "filter is_mark (SwitchSection S # xs @ ys) = spec_section_stream MCOS (D # Divs)"
      using xs(2) ys(2) Some D m1 by (simp add: M0_def emitItem_def)
    moreover have "\<forall>Sec T S P. (Sec, T) \<in> set (D # Divs) \<longrightarrow> getPseudoProbeSection MCOS Sec = Some S \<longrightarrow>
           Record P \<in> set (tree_events T) \<longrightarrow> encodable P"
      using enc enc' D m1 by auto
    ultimately show ?thesis by blast
  qed
qed

text \<open>
  C8: what \<open>MCPseudoProbeSection::emit\<close> puts out is, section after section (for the keys
  that resolve to a section), the switch to the section followed by the walk of that
  section's tree started without a previous probe: the first probe of the walk carries
  the packed byte for no previous probe and its label as a symbolic address, every later
  probe the packed byte for a previous probe and the delta to the probe emitted just
  before it, whatever node that one belongs to. In those packed bytes the decoder's
  address-delta flag is set exactly when there is a previous probe.
\<close>

theorem section_cursor_reset_and_deltas:
  assumes "MCPseudoProbeSection_emit MCProbeDivisions MCOS = Some MCOS'"
  shows "(\<exists>items. Emitted MCOS' = Emitted MCOS @ items
           \<and> filter is_mark items = spec_section_stream MCOS MCProbeDivisions)
       \<and> (\<forall>Sec T S P L. (Sec, T) \<in> set MCProbeDivisions \<longrightarrow>
             getPseudoProbeSection MCOS Sec = Some S \<longrightarrow> Record P \<in> set (tree_events T) \<longrightarrow>
             (isAddressDelta (spec_packed_byte P L) \<longleftrightarrow> L \<noteq> None))"
proof -
  from MCPseudoProbeSection_emit_Some [OF assms] obtain items where
    i: "MCOS' = MCOS\<lparr>Emitted := Emitted MCOS @ items\<rparr>"
      "filter is_mark items = spec_section_stream MCOS MCProbeDivisions"
    and enc: "\<forall>Sec T S P. (Sec, T) \<in> set MCProbeDivisions \<longrightarrow>
       getPseudoProbeSection MCOS Sec = Some S \<longrightarrow> Record P \<in> set (tree_events T) \<longrightarrow> encodable P"
    by blast
  have "Emitted MCOS' = Emitted MCOS @ items" using i(1) by simp
  then show ?thesis
    using i(2) enc encodable_packed_flag by blast
qed

theorem section_cursor_reset_and_deltas_witness:
  "MCPseudoProbeSection_emit divisions_ex MCOS_ex \<noteq> None
   \<and> filter is_mark (Emitted (the (MCPseudoProbeSection_emit divisions_ex MCOS_ex))) =
       [SwitchSection 1, Int64 7, Int8 0, SymbolValue 10 8, Int8 130,
        SLEB128IntValue 4, Int64 1, Int8 144, SLEB128IntValue (- 2), Int64 2,
        Int8 128, SLEB128IntValue 8, SwitchSection 2, Int64 1, Int8 16,
        SymbolValue 12 8, Int8 128, SLEB128IntValue (- 2)]
   \<and> \<not> isAddressDelta (spec_packed_byte probeA None)
   \<and> isAddressDelta (spec_packed_byte probeB (Some probeA))"
proof -
  obtain MCOS' where e: "MCPseudoProbeSection_emit divisions_ex MCOS_ex = Some MCOS'"
    by (simp add: divisions_ex_def tree_ex_def MCOS_ex_def emitItem_def probeA_def probeB_def
        probeC_def probeD_def MCPseudoProbe_emit_def AddressDelta_def)
  note t = section_cursor_reset_and_deltas [OF e]
  from t obtain items where i: "Emitted MCOS' = Emitted MCOS_ex @ items"
    "filter is_mark items = spec_section_stream MCOS_ex divisions_ex"
    by blast
  have "Emitted MCOS_ex = []" by (simp add: MCOS_ex_def)
  with i have "filter is_mark (Emitted MCOS') = spec_section_stream MCOS_ex divisions_ex"
    by simp
  also have "\<dots> = [SwitchSection 1, Int64 7, Int8 0, SymbolValue 10 8, Int8 130,
        SLEB128IntValue 4, Int64 1, Int8 144, SLEB128IntValue (- 2), Int64 2,
        Int8 128, SLEB128IntValue 8, SwitchSection 2, Int64 1, Int8 16,
        SymbolValue 12 8, Int8 128, SLEB128IntValue (- 2)]"
    by (simp add: divisions_ex_def tree_ex_def MCOS_ex_def probeA_def probeB_def probeC_def
        probeD_def spec_packed_byte_def spec_address_field_def)
  finally have s: "filter is_mark (Emitted MCOS') = [SwitchSection 1, Int64 7, Int8 0,
        SymbolValue 10 8, Int8 130,
        SLEB128IntValue 4, Int64 1, Int8 144, SLEB128IntValue (- 2), Int64 2,
        Int8 128, SLEB128IntValue 8, SwitchSection 2, Int64 1, Int8 16,
        SymbolValue 12 8, Int8 128, SLEB128IntValue (- 2)]" .
  have m: "((1 :: MCSection), Tree 0 [] [((7, 0), tree_ex)]) \<in> set divisions_ex"
    by (simp add: divisions_ex_def)
  have g: "getPseudoProbeSection MCOS_ex 1 = Some 1"
    by (simp add: MCOS_ex_def)
  have ra: "Record probeA \<in> set (tree_events (Tree 0 [] [((7, 0), tree_ex)]))"
    and rb: "Record probeB \<in> set (tree_events (Tree 0 [] [((7, 0), tree_ex)]))"
    by (simp_all add: tree_ex_def)
  from t m g ra have fa: "isAddressDelta (spec_packed_byte probeA None) \<longleftrightarrow> (None :: MCPseudoProbe option) \<noteq> None"
    by blast
  from t m g rb have fb: "isAddressDelta (spec_packed_byte probeB (Some probeA)) \<longleftrightarrow> Some probeA \<noteq> None"
    by blast
  show ?thesis using e s fa fb by simp
qed

subsection \<open>The address of a decoded probe\<close>

lemma bit_readNext_le:
  "bit (readNext_le bs :: 'a::len word) n \<longleftrightarrow>
     n < LENGTH('a) \<and> n div 8 < length bs \<and> bit (bs ! (n div 8)) (n mod 8)"
proof (induction bs arbitrary: n)
  case Nil
  then show ?case by simp
next
  case (Cons b bs)
  show ?case
  proof (cases "n < 8")
    case True
    then show ?thesis
      by (auto simp: bit_simps dest: bit_imp_le_length)
  next
    case False
    then have n: "n = 8 + (n - 8)" by simp
    have d: "n div 8 = Suc ((n - 8) div 8)" "n mod 8 = (n - 8) mod 8"
      using False by (simp_all add: le_div_geq le_mod_geq)
    have "bit (b :: 8 word) n = False"
      using False by (auto dest: bit_imp_le_length)
    then show ?thesis
      using False Cons [of "n - 8"] by (auto simp: bit_simps d)
  qed
qed

text \<open>
  C7: with the address-delta flag set, a successful read of the signed offset gives the
  address \<open>LastAddr + Offset\<close> in 64-bit arithmetic: as an unsigned number it is the sum of
  \<open>LastAddr\<close> and the signed value of the offset modulo \<open>2 ^ 64\<close>. With the flag clear
  and eight bytes left, the address is the eight-byte field itself: bit \<open>n\<close> of the address
  is bit \<open>n mod 8\<close> of the byte \<open>n div 8\<close> of the field.
\<close>

theorem probe_address_wraps:
  "(isAddressDelta Value \<longrightarrow>
      (\<forall>Offset d'. (readSignedNumber d :: int64_t option \<times> MCPseudoProbeDecoder) = (Some Offset, d') \<longrightarrow>
         readAddress Value LastAddr d = (Some (LastAddr + Offset), d')
         \<and> uint (LastAddr + Offset) = (uint LastAddr + sint Offset) mod 2 ^ 64))
   \<and> (\<not> isAddressDelta Value \<longrightarrow> Data d + 8 \<le> End d \<longrightarrow> End d \<le> length (Buf d) \<longrightarrow>
      (\<exists>Addr. readAddress Value LastAddr d = (Some Addr, d\<lparr>Data := Data d + 8\<rparr>)
         \<and> (\<forall>n<64. bit Addr n \<longleftrightarrow> bit (Buf d ! (Data d + n div 8)) (n mod 8))))"
proof (intro conjI impI allI)
  fix Offset :: int64_t and d'
  assume "isAddressDelta Value" and "readSignedNumber d = (Some Offset, d')"
  then show "readAddress Value LastAddr d = (Some (LastAddr + Offset), d')"
    by (simp add: readAddress_def)
  have "uint (LastAddr + Offset) = (uint LastAddr + uint Offset) mod 2 ^ 64"
    by (simp add: uint_word_ariths)
  also have "uint Offset = sint Offset mod 2 ^ 64"
    by (simp add: uint_sint take_bit_eq_mod)
  finally show "uint (LastAddr + Offset) = (uint LastAddr + sint Offset) mod 2 ^ 64"
    by (simp add: mod_simps)
next
  assume f: "\<not> isAddressDelta Value" and b: "Data d + 8 \<le> End d" "End d \<le> length (Buf d)"
  let ?bs = "take 8 (drop (Data d) (Buf d))"
  have r: "readAddress Value LastAddr d = (Some (readNext_le ?bs), d\<lparr>Data := Data d + 8\<rparr>)"
    using f b by (simp add: readAddress_def readUnencodedNumber_def)
  have l: "length ?bs = 8" using b by simp
  have "bit (readNext_le ?bs :: uint64_t) n \<longleftrightarrow> bit (Buf d ! (Data d + n div 8)) (n mod 8)"
    if "n < 64" for n
  proof -
    have "n div 8 < 8" using that by simp
    then show ?thesis
      using that l by (simp add: bit_readNext_le)
  qed
  with r show "\<exists>Addr. readAddress Value LastAddr d = (Some Addr, d\<lparr>Data := Data d + 8\<rparr>)
         \<and> (\<forall>n<64. bit Addr n \<longleftrightarrow> bit (Buf d ! (Data d + n div 8)) (n mod 8))"
    by blast
qed

theorem probe_address_wraps_witness:
  "isAddressDelta 0x80
   \<and> (readSignedNumber delta_ex :: int64_t option \<times> MCPseudoProbeDecoder)
       = (Some (- 1), delta_ex\<lparr>Data := 1\<rparr>)
   \<and> readAddress 0x80 0 delta_ex = (Some (0 + (- 1)), delta_ex\<lparr>Data := 1\<rparr>)
   \<and> uint (0 + (- 1) :: uint64_t) = (uint (0 :: uint64_t) + sint (- 1 :: int64_t)) mod 2 ^ 64
   \<and> \<not> isAddressDelta 0x02 \<and> Data absolute_ex + 8 \<le> End absolute_ex
   \<and> End absolute_ex \<le> length (Buf absolute_ex)
   \<and> (\<exists>Addr. readAddress 0x02 5 absolute_ex = (Some Addr, absolute_ex\<lparr>Data := Data absolute_ex + 8\<rparr>)
         \<and> (\<forall>n<64. bit Addr n \<longleftrightarrow> bit (Buf absolute_ex ! (Data absolute_ex + n div 8)) (n mod 8)))"
proof -
  have 1: "isAddressDelta 0x80" by (simp add: isAddressDelta_def)
  have 2: "(readSignedNumber delta_ex :: int64_t option \<times> MCPseudoProbeDecoder)
       = (Some (- 1), delta_ex\<lparr>Data := 1\<rparr>)"
    by (simp add: readSignedNumber_def delta_ex_def new_decoder_def)
  have 3: "\<not> isAddressDelta 0x02" by (simp add: isAddressDelta_def)
  have 4: "Data absolute_ex + 8 \<le> End absolute_ex" "End absolute_ex \<le> length (Buf absolute_ex)"
    by (simp_all add: absolute_ex_def)
  show ?thesis
    using 1 2 3 4 probe_address_wraps [of "0x80" delta_ex 0]
      probe_address_wraps [of "0x02" absolute_ex 5]
    by blast
qed

subsection \<open>The inline context of a decoded probe\<close>

lemma walkInlineTree_Some_frames:
  assumes "walkInlineTree h d Cur Acc = Some R"
  shows "\<exists>Fs. inline_frames h d Cur Fs \<and> R = Acc @ Fs"
  using assms
proof (induction h d Cur Acc R rule: walkInlineTree.raw_induct [rotated, consumes 1])
  case (1 f h d Cur Acc R)
  show ?case
  proof (cases "h (Nodes d) Cur")
    case False
    then show ?thesis using 1(2) by (auto intro: inline_frames.stop)
  next
    case True
    with 1(2) obtain P Name where p: "Parent (Nodes d ! Cur) = Some P"
      and n: "getProbeFNameForGUID (GUID2FuncDescMap d) (Guid (Nodes d ! P)) = Some Name"
      and r: "f h d P (Acc @ [(Name, snd (ISite (Nodes d ! Cur)))]) = Some R"
      by (auto split: option.splits)
    from 1(1) [OF r] obtain Fs where "inline_frames h d P Fs"
      "R = (Acc @ [(Name, snd (ISite (Nodes d ! Cur)))]) @ Fs"
      by blast
    then show ?thesis
      using inline_frames.step [where hasInlineSite = h, OF True p n] by auto
  qed
qed

lemma frames_walkInlineTree:
  "inline_frames h d Cur Fs \<Longrightarrow> walkInlineTree h d Cur Acc = Some (Acc @ Fs)"
proof (induction arbitrary: Acc rule: inline_frames.induct)
  case (stop Cur)
  then show ?case by (subst walkInlineTree.simps) simp
next
  case (step Cur P Name Fs)
  show ?case
    using step.hyps(1-3) step.IH [of "Acc @ [(Name, snd (ISite (Nodes d ! Cur)))]"]
    by (subst walkInlineTree.simps) simp
qed

lemma getInlineContext_iff:
  "getInlineContext h d Probe Stack = Some R \<longleftrightarrow>
     (\<exists>Fs. inline_frames h d (InlineTree Probe) Fs \<and> R = Stack @ rev Fs)"
proof
  assume "getInlineContext h d Probe Stack = Some R"
  then obtain R' where w: "walkInlineTree h d (InlineTree Probe) Stack = Some R'"
    and r: "R = take (length Stack) R' @ rev (drop (length Stack) R')"
    by (auto simp: getInlineContext_def Let_def split: option.splits)
  from walkInlineTree_Some_frames [OF w] obtain Fs where
    "inline_frames h d (InlineTree Probe) Fs" "R' = Stack @ Fs" by blast
  then show "\<exists>Fs. inline_frames h d (InlineTree Probe) Fs \<and> R = Stack @ rev Fs"
    using r by auto
next
  assume "\<exists>Fs. inline_frames h d (InlineTree Probe) Fs \<and> R = Stack @ rev Fs"
  then obtain Fs where f: "inline_frames h d (InlineTree Probe) Fs" and r: "R = Stack @ rev Fs"
    by blast
  show "getInlineContext h d Probe Stack = Some R"
    using frames_walkInlineTree [OF f, of Stack] r
    by (simp add: getInlineContext_def Let_def)
qed

text \<open>
  C9, for any test \<open>hasSite\<close> in the place of \<open>hasInlineSite\<close>:
  \<open>getInlineContextForProbe\<close> returns exactly when the walk up the parent links from
  the probe's node ends (and, with \<open>IncludeLeaf\<close>, the probe's function has a
  descriptor). What it returns is the stack it was given, followed by the frames of the
  walk reversed, so that the outermost caller comes first, followed with \<open>IncludeLeaf\<close> by
  the frame of the probe itself: the name of the function of its GUID with its index.
\<close>

theorem inline_context_for_probe:
  "getInlineContextForProbe hasSite d Probe Stack IncludeLeaf = Some Result \<longleftrightarrow>
     (\<exists>Fs. inline_frames hasSite d (InlineTree Probe) Fs \<and>
        (if IncludeLeaf
         then \<exists>Desc. GUID2FuncDescMap d (ProbeGuid Probe) = Some Desc \<and>
                Result = Stack @ rev Fs @ [(FuncName Desc, ProbeIndex Probe)]
         else Result = Stack @ rev Fs))"
proof (cases IncludeLeaf)
  case False
  then show ?thesis
    using getInlineContext_iff [of hasSite d Probe Stack Result]
    by (auto simp: getInlineContextForProbe_def split: option.splits)
next
  case True
  show ?thesis
  proof
    assume a: "getInlineContextForProbe hasSite d Probe Stack IncludeLeaf = Some Result"
    then obtain R Desc where c: "getInlineContext hasSite d Probe Stack = Some R"
      and g: "GUID2FuncDescMap d (ProbeGuid Probe) = Some Desc"
      and r: "Result = R @ [(FuncName Desc, ProbeIndex Probe)]"
      using True
      by (auto simp: getInlineContextForProbe_def getFuncDescForGUID_def split: option.splits)
    from c obtain Fs where "inline_frames hasSite d (InlineTree Probe) Fs" "R = Stack @ rev Fs"
      using getInlineContext_iff [of hasSite d Probe Stack R] by blast
    then show "\<exists>Fs. inline_frames hasSite d (InlineTree Probe) Fs \<and>
        (if IncludeLeaf
         then \<exists>Desc. GUID2FuncDescMap d (ProbeGuid Probe) = Some Desc \<and>
                Result = Stack @ rev Fs @ [(FuncName Desc, ProbeIndex Probe)]
         else Result = Stack @ rev Fs)"
      using True g r by auto
  next
    assume "\<exists>Fs. inline_frames hasSite d (InlineTree Probe) Fs \<and>
        (if IncludeLeaf
         then \<exists>Desc. GUID2FuncDescMap d (ProbeGuid Probe) = Some Desc \<and>
                Result = Stack @ rev Fs @ [(FuncName Desc, ProbeIndex Probe)]
         else Result = Stack @ rev Fs)"
    then obtain Fs Desc where f: "inline_frames hasSite d (InlineTree Probe) Fs"
      and g: "GUID2FuncDescMap d (ProbeGuid Probe) = Some Desc"
      and r: "Result = Stack @ rev Fs @ [(FuncName Desc, ProbeIndex Probe)]"
      using True by auto
    have "getInlineContext hasSite d Probe Stack = Some (Stack @ rev Fs)"
      using getInlineContext_iff [of hasSite d Probe Stack "Stack @ rev Fs"] f by blast
    then show "getInlineContextForProbe hasSite d Probe Stack IncludeLeaf = Some Result"
      using True g r by (simp add: getInlineContextForProbe_def getFuncDescForGUID_def)
  qed
qed

theorem inline_context_for_probe_witness:
  "inline_frames hasInlineSite context_ex (InlineTree decoded_probe_ex) [([0x41], 7)]
   \<and> GUID2FuncDescMap context_ex (ProbeGuid decoded_probe_ex)
       = Some \<lparr>FuncGUID = 11, FuncHash = 0, FuncName = [0x42]\<rparr>
   \<and> getInlineContextForProbe hasInlineSite context_ex decoded_probe_ex [] True
       = Some [([0x41], 7), ([0x42], 1)]
   \<and> getInlineContextForProbe hasInlineSite context_ex decoded_probe_ex [] False
       = Some [([0x41], 7)]"
proof -
  have n1: "\<not> hasInlineSite (Nodes context_ex) 1"
    by (simp add: hasInlineSite_def context_ex_def new_decoder_def)
  have h2: "hasInlineSite (Nodes context_ex) 2"
    by (simp add: hasInlineSite_def context_ex_def new_decoder_def)
  have p2: "Parent (Nodes context_ex ! 2) = Some 1"
    by (simp add: context_ex_def)
  have nm: "getProbeFNameForGUID (GUID2FuncDescMap context_ex) (Guid (Nodes context_ex ! 1)) = Some [0x41]"
    by (simp add: getProbeFNameForGUID_def context_ex_def)
  have "inline_frames hasInlineSite context_ex 2 [([0x41], snd (ISite (Nodes context_ex ! 2)))]"
    using inline_frames.step [where hasInlineSite = hasInlineSite and d = context_ex
        and Cur = 2 and P = 1 and Name = "[0x41]" and Fs = "[]"]
      inline_frames.stop [where hasInlineSite = hasInlineSite and d = context_ex and Cur = 1]
      h2 p2 nm n1
    by blast
  then have f: "inline_frames hasInlineSite context_ex (InlineTree decoded_probe_ex) [([0x41], 7)]"
    by (simp add: context_ex_def decoded_probe_ex_def)
  have g: "GUID2FuncDescMap context_ex (ProbeGuid decoded_probe_ex)
       = Some \<lparr>FuncGUID = 11, FuncHash = 0, FuncName = [0x42]\<rparr>"
    by (simp add: context_ex_def decoded_probe_ex_def)
  have i: "ProbeIndex decoded_probe_ex = 1" by (simp add: decoded_probe_ex_def)
  show ?thesis
    using f g i
      inline_context_for_probe [of hasInlineSite context_ex decoded_probe_ex "[]" True
        "[([0x41], 7), ([0x42], 1)]"]
      inline_context_for_probe [of hasInlineSite context_ex decoded_probe_ex "[]" False
        "[([0x41], 7)]"]
    by auto
qed

subsection \<open>Insertion into the inline tree\<close>

lemma at_node_append_aux:
  "g = at_node q f \<Longrightarrow> at_node (p @ q) f T = at_node p g T"
  "g = at_node q f \<Longrightarrow> at_child s (p @ q) f Cs = at_child s p g Cs"
  by (induction p g T and s p g Cs rule: at_node_at_child.induct) auto

lemma at_node_append: "at_node (p @ q) f T = at_node p (at_node q f) T"
  by (rule at_node_append_aux(1)) simp

lemma at_node_comp_aux:
  "at_node p g (at_node p h T) = at_node p (g \<circ> h) T"
  "at_child s p g (at_child s p h Cs) = at_child s p (g \<circ> h) Cs"
  by (induction p h T and s p h Cs rule: at_node_at_child.induct) auto

lemma install_Nil [simp]: "install [] f = f"
  by (simp add: fun_eq_iff)

lemma at_node_step:
  "at_node (Cur @ [Site]) f (at_node Cur (Tree_getOrAddNode Site) Root) =
     at_node Cur (install [Site] f) Root"
proof -
  have "install [Site] f = at_node [Site] f \<circ> Tree_getOrAddNode Site"
    by (simp add: fun_eq_iff)
  then show ?thesis
    by (simp add: at_node_append at_node_comp_aux(1))
qed

lemma at_node_install:
  "at_node (Cur @ [Site]) (install Path f) (at_node Cur (Tree_getOrAddNode Site) Root) =
     at_node Cur (install (Site # Path) f) Root"
proof -
  have "install (Site # Path) f = at_node [Site] (install Path f) \<circ> Tree_getOrAddNode Site"
    by (simp add: fun_eq_iff)
  then show ?thesis
    by (simp add: at_node_append at_node_comp_aux(1))
qed

lemma walkInlineStack_install:
  "walkInlineStack Index Iter Cur Root = (Index', Cur', Root') \<Longrightarrow>
     at_node (Cur' @ [(G, Index')]) f (at_node Cur' (Tree_getOrAddNode (G, Index')) Root') =
     at_node Cur (install (spec_path_from Index Iter G) f) Root"
proof (induction Iter arbitrary: Index Cur Root)
  case Nil
  then show ?case
    using at_node_step [of Cur "(G, Index)" f Root] by (simp del: install.simps)
next
  case (Cons Site Iter)
  obtain fn callsite where s: "Site = (fn, callsite)" by (cases Site)
  from Cons.prems s have
    "walkInlineStack callsite Iter (Cur @ [(fn, Index)])
       (at_node Cur (Tree_getOrAddNode (fn, Index)) Root) = (Index', Cur', Root')"
    by simp
  from Cons.IH [OF this] show ?case
    using at_node_install [of Cur "(fn, Index)" "spec_path_from callsite Iter G" f Root] s
    by (simp del: install.simps)
qed

lemma addPseudoProbe_install:
  "isRoot Root \<Longrightarrow>
     addPseudoProbe P S Root = Some (install (spec_path P S) (push_back_Probe P) Root)"
proof (cases S)
  case Nil
  assume "isRoot Root"
  then show ?thesis using Nil by (simp add: addPseudoProbe_def Let_def)
next
  case (Cons Site Iter)
  assume r: "isRoot Root"
  obtain fn callsite where s: "Site = (fn, callsite)" by (cases Site)
  obtain Index' Cur' Root' where
    w: "walkInlineStack callsite Iter [(fn, 0)] (Tree_getOrAddNode (fn, 0) Root) = (Index', Cur', Root')"
    by (cases "walkInlineStack callsite Iter [(fn, 0)] (Tree_getOrAddNode (fn, 0) Root)") auto
  from walkInlineStack_install [OF w, of "getGuid P" "push_back_Probe P"]
  show ?thesis
    using r Cons s w by (simp add: addPseudoProbe_def Let_def)
qed


lemma map_of_at_child:
  "map_of (at_child s [] g Cs) s' = (if s' = s then map_option g (map_of Cs s) else map_of Cs s')"
  by (induction Cs) auto

lemma map_of_getOrAddNode:
  "map_of (Tree_Children (Tree_getOrAddNode s T)) s' =
     (if s' = s then Some (child_or_new s T) else map_of (Tree_Children T) s')"
  by (auto simp: Tree_getOrAddNode_def child_or_new_def map_add_def split: option.splits)

lemma install_Cons_node:
  "map_of (Tree_Children (install (s # p) f T)) s' =
     (if s' = s then Some (install p f (child_or_new s T)) else map_of (Tree_Children T) s')"
  "Tree_Probes (install (s # p) f T) = Tree_Probes T"
  "Tree_Guid (install (s # p) f T) = Tree_Guid T"
proof -
  obtain G Ps Cs where t: "Tree_getOrAddNode s T = Tree G Ps Cs"
    by (cases "Tree_getOrAddNode s T")
  have g: "G = Tree_Guid T" "Ps = Tree_Probes T"
    using t by (auto simp: Tree_getOrAddNode_def split: option.splits)
  have c: "map_of Cs s' = (if s' = s then Some (child_or_new s T) else map_of (Tree_Children T) s')"
    for s'
    using map_of_getOrAddNode [of s T s'] t by simp
  have i: "install (s # p) f T = Tree G Ps (at_child s [] (install p f) Cs)"
    using t by simp
  show "map_of (Tree_Children (install (s # p) f T)) s' =
     (if s' = s then Some (install p f (child_or_new s T)) else map_of (Tree_Children T) s')"
    unfolding i using c by (simp add: map_of_at_child)
  show "Tree_Probes (install (s # p) f T) = Tree_Probes T"
    "Tree_Guid (install (s # p) f T) = Tree_Guid T"
    unfolding i using g by simp_all
qed

lemma probes_at_simps:
  "probes_at [] T = Some (Tree_Probes T)"
  "probes_at (s # q) T =
     (case map_of (Tree_Children T) s of None \<Rightarrow> None | Some C \<Rightarrow> probes_at q C)"
  by (simp_all add: probes_at_def split: option.split)

lemma probes_at_new:
  "probes_at q (Tree G [] []) = (if q = [] then Some [] else None)"
  by (cases q) (simp_all add: probes_at_simps)

lemma probes_at_push_back:
  "probes_at q (push_back_Probe P T) = (if q = [] then Some (Tree_Probes T @ [P]) else probes_at q T)"
  by (cases q) (simp_all add: probes_at_simps push_back_Probe_def)

lemma probes_at_install:
  "probes_at Q (install Path (push_back_Probe P) T) =
     (if Q = Path then Some ((case probes_at Path T of Some Ps \<Rightarrow> Ps | None \<Rightarrow> []) @ [P])
      else if probes_at Q T = None \<and> (\<exists>R. Path = Q @ R) then Some []
      else probes_at Q T)"
proof (induction Path arbitrary: Q T)
  case Nil
  then show ?case
    by (auto simp: probes_at_push_back probes_at_simps)
next
  case (Cons s p)
  show ?case
  proof (cases Q)
    case Nil
    then show ?thesis
      by (simp add: probes_at_simps install_Cons_node del: install.simps)
  next
    case (Cons s' q)
    note Q = this
    show ?thesis
    proof (cases "s' = s")
      case False
      then show ?thesis
        using Q by (simp add: probes_at_simps install_Cons_node del: install.simps)
    next
      case True
      have l: "probes_at Q (install (s # p) (push_back_Probe P) T) =
          probes_at q (install p (push_back_Probe P) (child_or_new s T))"
        using Q True by (simp add: probes_at_simps install_Cons_node del: install.simps)
      note ih = Cons.IH [of q "child_or_new s T"]
      show ?thesis
      proof (cases "map_of (Tree_Children T) s")
        case (Some C)
        then have c: "child_or_new s T = C" by (simp add: child_or_new_def)
        have "probes_at (s # r) T = probes_at r C" for r
          using Some by (simp add: probes_at_simps)
        then show ?thesis
          unfolding l c ih [unfolded c] using Q True by simp
      next
        case None
        then have c: "child_or_new s T = Tree (fst s) [] []" by (simp add: child_or_new_def)
        have n: "probes_at (s # r) T = None" for r
          using None by (simp add: probes_at_simps)
        show ?thesis
          unfolding l c ih [unfolded c] using Q True n by (auto simp: probes_at_new)
      qed
    qed
  qed
qed

lemma spec_path_nonempty: "spec_path P S \<noteq> []"
  by (cases "(P, S)" rule: spec_path.cases) auto

text \<open>
  C6: called on a root, \<open>addPseudoProbe\<close> returns the tree in which the node at the end
  of the specification's path holds the probes it held before (none if it did not
  exist) followed by the new probe. Every other node keeps its probes, and a node is
  new, without probes, exactly where a node on the path was missing.
\<close>

theorem addPseudoProbe_path:
  assumes "isRoot Root"
  shows "\<exists>Root'. addPseudoProbe P S Root = Some Root'
     \<and> probes_at (spec_path P S) Root' =
         Some ((case probes_at (spec_path P S) Root of Some Ps \<Rightarrow> Ps | None \<Rightarrow> []) @ [P])
     \<and> (\<forall>Q. Q \<noteq> spec_path P S \<longrightarrow>
           probes_at Q Root' =
             (if probes_at Q Root = None \<and> (\<exists>R. spec_path P S = Q @ R) then Some []
              else probes_at Q Root))"
  using addPseudoProbe_install [OF assms, of P S]
    probes_at_install [of _ "spec_path P S" P Root]
  by simp

theorem addPseudoProbe_path_witness:
  "isRoot root_ex
   \<and> spec_path probe_in_C stack_ex = [(10, 0), (11, 88), (12, 66)]
   \<and> addPseudoProbe probe_in_C stack_ex root_ex =
       Some (Tree 0 []
               [((10, 0), Tree 10 [probeA]
                   [((11, 88), Tree 11 [] [((12, 66), Tree 12 [probe_in_C] [])])])])
   \<and> probes_at [(10, 0), (11, 88), (12, 66)] (the (addPseudoProbe probe_in_C stack_ex root_ex))
       = Some [probe_in_C]
   \<and> probes_at [(10, 0)] (the (addPseudoProbe probe_in_C stack_ex root_ex)) = Some [probeA]
   \<and> probes_at [(10, 0), (11, 88)] (the (addPseudoProbe probe_in_C stack_ex root_ex)) = Some []"
proof -
  have r: "isRoot root_ex" by (simp add: isRoot_def root_ex_def)
  have p: "spec_path probe_in_C stack_ex = [(10, 0), (11, 88), (12, 66)]"
    by (simp add: stack_ex_def probe_in_C_def)
  have a: "addPseudoProbe probe_in_C stack_ex root_ex =
       Some (Tree 0 []
               [((10, 0), Tree 10 [probeA]
                   [((11, 88), Tree 11 [] [((12, 66), Tree 12 [probe_in_C] [])])])])"
    by (simp add: addPseudoProbe_def isRoot_def root_ex_def stack_ex_def Tree_getOrAddNode_def
        push_back_Probe_def Let_def probe_in_C_def)
  have b: "probes_at [(10, 0), (11, 88), (12, 66)] root_ex = None"
    "probes_at [(10, 0)] root_ex = Some [probeA]"
    "probes_at [(10, 0), (11, 88)] root_ex = None"
    by (simp_all add: probes_at_def root_ex_def)
  from addPseudoProbe_path [OF r, of probe_in_C stack_ex] obtain Root' where
    1: "addPseudoProbe probe_in_C stack_ex root_ex = Some Root'"
    and 2: "probes_at (spec_path probe_in_C stack_ex) Root' =
         Some ((case probes_at (spec_path probe_in_C stack_ex) root_ex of Some Ps \<Rightarrow> Ps | None \<Rightarrow> []) @ [probe_in_C])"
    and 3: "\<And>Q. Q \<noteq> spec_path probe_in_C stack_ex \<Longrightarrow>
           probes_at Q Root' =
             (if probes_at Q root_ex = None \<and> (\<exists>R. spec_path probe_in_C stack_ex = Q @ R) then Some []
              else probes_at Q root_ex)"
    by blast
  have 4: "probes_at [(10, 0), (11, 88), (12, 66)] Root' = Some [probe_in_C]"
    using 2 b(1) unfolding p by simp
  have 5: "probes_at [(10, 0)] Root' = Some [probeA]"
    using 3 [of "[(10, 0)]"] b(2) unfolding p by simp
  have 6: "probes_at [(10, 0), (11, 88)] Root' = Some []"
    using 3 [of "[(10, 0), (11, 88)]"] b(3) unfolding p by simp
  show ?thesis
    using r p a 1 4 5 6 by simp
qed

subsection \<open>Reading the fields of a well-formed section\<close>

lemma is_leb128_Cons:
  "is_leb128 (b # bs) \<longleftrightarrow> (if bs = [] then b < 128 else 128 \<le> b \<and> is_leb128 bs)"
  by (auto simp: is_leb128_def)

lemma decodeULEB128_append:
  "is_leb128 bs \<Longrightarrow> decodeULEB128 (bs @ rest) = (fst (decodeULEB128 bs), length bs)"
proof (induction bs)
  case Nil
  then show ?case by (simp add: is_leb128_def)
next
  case (Cons b bs)
  show ?case
  proof (cases "bs = []")
    case True
    then have "b < 128" using Cons.prems by (simp add: is_leb128_Cons)
    then have "\<not> 128 \<le> b" by simp
    then show ?thesis using True by simp
  next
    case False
    then have b: "128 \<le> b" and l: "is_leb128 bs"
      using Cons.prems by (simp_all add: is_leb128_Cons)
    show ?thesis
      using Cons.IH [OF l] b by (simp split: prod.split)
  qed
qed

lemma decodeSLEB128_append:
  "is_leb128 bs \<Longrightarrow> decodeSLEB128 (bs @ rest) = (fst (decodeSLEB128 bs), length bs)"
proof (induction bs)
  case Nil
  then show ?case by (simp add: is_leb128_def)
next
  case (Cons b bs)
  show ?case
  proof (cases "bs = []")
    case True
    then have "b < 128" using Cons.prems by (simp add: is_leb128_Cons)
    then have "\<not> 128 \<le> b" by simp
    then show ?thesis using True by simp
  next
    case False
    then have b: "128 \<le> b" and l: "is_leb128 bs"
      using Cons.prems by (simp_all add: is_leb128_Cons)
    show ?thesis
      using Cons.IH [OF l] b by (simp split: prod.split)
  qed
qed

lemma decodeULEB128_take:
  "decodeULEB128 xs = (v, n) \<Longrightarrow> n \<le> length xs \<Longrightarrow>
     is_leb128 (take n xs) \<and> fst (decodeULEB128 (take n xs)) = v"
proof (induction xs arbitrary: v n)
  case Nil
  then show ?case by simp
next
  case (Cons b xs)
  show ?case
  proof (cases "128 \<le> b")
    case False
    then show ?thesis using Cons.prems by (auto simp: is_leb128_Cons)
  next
    case True
    obtain v' n' where d: "decodeULEB128 xs = (v', n')" by (cases "decodeULEB128 xs")
    have n: "n = Suc n'" "v = unat (b AND 0x7f) + 128 * v'"
      using Cons.prems(1) True d by simp_all
    have "n' \<le> length xs" using Cons.prems(2) n by simp
    from Cons.IH [OF d this] have i: "is_leb128 (take n' xs)" "fst (decodeULEB128 (take n' xs)) = v'"
      by simp_all
    have "take n' xs \<noteq> []" using i(1) by (auto simp: is_leb128_def)
    moreover obtain n'' where "decodeULEB128 (take n' xs) = (v', n'')"
      using i(2) by (cases "decodeULEB128 (take n' xs)") auto
    ultimately show ?thesis
      using i n True by (simp add: is_leb128_Cons)
  qed
qed

lemma remaining_length:
  "remaining d = bs @ rest \<Longrightarrow> Data d \<le> End d \<Longrightarrow> Data d + length bs \<le> End d"
proof -
  assume a: "remaining d = bs @ rest" and b: "Data d \<le> End d"
  have "length (remaining d) \<le> End d - Data d"
    by (simp add: remaining_def)
  then have "length bs \<le> End d - Data d" using a by simp
  then show ?thesis using b by simp
qed

lemma remaining_take:
  "remaining d = bs @ rest \<Longrightarrow> Data d \<le> End d \<Longrightarrow>
     take (length bs) (drop (Data d) (Buf d)) = bs"
proof -
  assume a: "remaining d = bs @ rest" and b: "Data d \<le> End d"
  have "remaining d = take (End d - Data d) (drop (Data d) (Buf d))"
    by (simp add: remaining_def drop_take)
  then have "take (length bs) (remaining d) = take (length bs) (drop (Data d) (Buf d))"
    using remaining_length [OF a b] by (simp add: min_def)
  then show ?thesis using a by simp
qed

lemma remaining_advance:
  "remaining d = bs @ rest \<Longrightarrow> remaining (d\<lparr>Data := Data d + length bs\<rparr>) = rest"
proof -
  assume a: "remaining d = bs @ rest"
  have "remaining (d\<lparr>Data := Data d + length bs\<rparr>) = drop (length bs) (remaining d)"
    by (simp add: remaining_def add.commute)
  then show ?thesis using a by simp
qed

lemma length_remaining: "End d \<le> length (Buf d) \<Longrightarrow> length (remaining d) = End d - Data d"
  by (simp add: remaining_def)

lemma remaining_Nil:
  "remaining d = [] \<Longrightarrow> End d \<le> length (Buf d) \<Longrightarrow> End d \<le> Data d"
  using length_remaining [of d] by simp

lemma remaining_start_at [simp]: "remaining (start_at Start d) = Start"
  by (simp add: remaining_def start_at_def)

lemma consumes_Data [simp]: "consumes bs d (d\<lparr>Data := Data d + length bs\<rparr>)"
  by (simp add: consumes_def)

lemma consumes_append:
  "consumes bs d d' \<Longrightarrow> consumes cs d' d'' \<Longrightarrow> consumes (bs @ cs) d d''"
  by (simp add: consumes_def)

lemma consumes_remaining:
  assumes "remaining d = bs @ rest" and "Data d \<le> End d" and "consumes bs d d'"
  shows "remaining d' = rest" and "Data d' \<le> End d'"
proof -
  have "remaining d' = remaining (d\<lparr>Data := Data d + length bs\<rparr>)"
    using assms(3) by (simp add: consumes_def remaining_def)
  then show "remaining d' = rest" using remaining_advance [OF assms(1)] by simp
  show "Data d' \<le> End d'"
    using remaining_length [OF assms(1,2)] assms(3) by (simp add: consumes_def)
qed

lemma readUnencodedNumber_bytes:
  assumes "remaining d = bs @ rest" and "Data d \<le> End d"
    and "length bs = LENGTH('a::len) div 8"
  shows "readUnencodedNumber d = (Some (readNext_le bs :: 'a word), d\<lparr>Data := Data d + length bs\<rparr>)"
  using remaining_length [OF assms(1,2)] remaining_take [OF assms(1,2)] assms(3)
  by (simp add: readUnencodedNumber_def)

lemma unat_uleb32:
  "uleb32 bs \<Longrightarrow> unat (of_nat (fst (decodeULEB128 bs)) :: uint32_t) = fst (decodeULEB128 bs)"
  by (simp add: uleb32_def unat_of_nat)

lemma readUnsignedNumber_bytes:
  assumes "remaining d = bs @ rest" and "Data d \<le> End d" and "uleb32 bs"
  shows "readUnsignedNumber d =
     (Some (of_nat (fst (decodeULEB128 bs)) :: uint32_t), d\<lparr>Data := Data d + length bs\<rparr>)"
proof -
  have "decodeULEB128 (remaining d) = (fst (decodeULEB128 bs), length bs)"
    using assms decodeULEB128_append by (simp add: uleb32_def)
  then show ?thesis
    using remaining_length [OF assms(1,2)] assms(3)
    by (simp add: readUnsignedNumber_def remaining_def uleb32_def)
qed

lemma readSignedNumber_bytes:
  assumes "remaining d = bs @ rest" and "Data d \<le> End d" and "sleb64 bs"
  shows "readSignedNumber d =
     (Some (of_int (fst (decodeSLEB128 bs)) :: int64_t), d\<lparr>Data := Data d + length bs\<rparr>)"
proof -
  have "decodeSLEB128 (remaining d) = (fst (decodeSLEB128 bs), length bs)"
    using assms decodeSLEB128_append by (simp add: sleb64_def)
  then show ?thesis
    using remaining_length [OF assms(1,2)] assms(3)
    by (simp add: readSignedNumber_def remaining_def sleb64_def)
qed

lemma readString_bytes:
  assumes "remaining d = bs @ rest" and "Data d \<le> End d"
  shows "readString (length bs) d = (Some bs, d\<lparr>Data := Data d + length bs\<rparr>)"
  using remaining_length [OF assms] remaining_take [OF assms]
  by (simp add: readString_def)

lemma readAddress_bytes:
  assumes "remaining d = address @ rest" and "Data d \<le> End d"
    and "address_field packed address"
  shows "readAddress packed LastAddr d =
           (Some (spec_address LastAddr packed address), d\<lparr>Data := Data d + length address\<rparr>)"
proof (cases "isAddressDelta packed")
  case True
  then have "sleb64 address" using assms(3) by (simp add: address_field_def)
  from readSignedNumber_bytes [OF assms(1,2) this] show ?thesis
    using True by (simp add: readAddress_def spec_address_def)
next
  case False
  then have "length address = LENGTH(64) div 8" using assms(3) by (simp add: address_field_def)
  from readUnencodedNumber_bytes [OF assms(1,2) this] show ?thesis
    using False by (simp add: readAddress_def spec_address_def)
qed

subsection \<open>The shape of the decoded forest\<close>

lemma tla_bound:
  "top_level_ancestor Ns n t \<Longrightarrow>
     n < length Ns \<and> 0 < t \<and> t < length Ns \<and> Parent (Ns ! t) = Some 0"
  by (induction rule: top_level_ancestor.induct) auto

lemma tla_mono:
  assumes "top_level_ancestor Ns n t"
    and "length Ns \<le> length Ns'"
    and "\<And>m. m < length Ns \<Longrightarrow> Parent (Ns' ! m) = Parent (Ns ! m)"
  shows "top_level_ancestor Ns' n t"
  using assms
proof (induction rule: top_level_ancestor.induct)
  case (top n)
  then show ?case by (intro top_level_ancestor.top) auto
next
  case (up n p t)
  have "top_level_ancestor Ns' p t" using up by blast
  then show ?case
    using up.hyps up.prems by (intro top_level_ancestor.up [of n Ns' p t]) auto
qed

lemma store_invI:
  assumes "Nodes d \<noteq> []"
    and "\<And>n s c. n < length (Nodes d) \<Longrightarrow> (s, c) \<in> set (Children (Nodes d ! n)) \<Longrightarrow>
           0 < c \<and> c < length (Nodes d) \<and> Parent (Nodes d ! c) = Some n"
    and "\<And>a ps p. Address2ProbesMap d a = Some ps \<Longrightarrow> p \<in> set ps \<Longrightarrow>
           0 < InlineTree p \<and> InlineTree p < length (Nodes d)"
    and "\<And>n. F \<noteq> {} \<Longrightarrow> 0 < n \<Longrightarrow> n < length (Nodes d) \<Longrightarrow>
           \<exists>t. top_level_ancestor (Nodes d) n t \<and> Guid (Nodes d ! t) \<in> F"
  shows "store_inv F d"
  unfolding store_inv_def using assms by blast

lemma store_inv_nonempty: "store_inv F d \<Longrightarrow> Nodes d \<noteq> []"
  by (simp add: store_inv_def)

lemma store_inv_child:
  "store_inv F d \<Longrightarrow> n < length (Nodes d) \<Longrightarrow> (s, c) \<in> set (Children (Nodes d ! n)) \<Longrightarrow>
     0 < c \<and> c < length (Nodes d) \<and> Parent (Nodes d ! c) = Some n"
  unfolding store_inv_def by blast

lemma store_inv_probe:
  "store_inv F d \<Longrightarrow> Address2ProbesMap d a = Some ps \<Longrightarrow> p \<in> set ps \<Longrightarrow>
     0 < InlineTree p \<and> InlineTree p < length (Nodes d)"
  unfolding store_inv_def by blast

lemma store_inv_tla:
  "store_inv F d \<Longrightarrow> F \<noteq> {} \<Longrightarrow> 0 < n \<Longrightarrow> n < length (Nodes d) \<Longrightarrow>
     \<exists>t. top_level_ancestor (Nodes d) n t \<and> Guid (Nodes d ! t) \<in> F"
  unfolding store_inv_def by blast

lemma store_inv_cong:
  "Nodes d' = Nodes d \<Longrightarrow> Address2ProbesMap d' = Address2ProbesMap d \<Longrightarrow>
     store_inv F d' = store_inv F d"
  by (simp add: store_inv_def)

text \<open>Writing the GUID of a node.\<close>

lemma store_inv_setGuid:
  assumes inv: "store_inv F d" and c: "c < length (Nodes d)"
    and G: "F \<noteq> {} \<Longrightarrow> Parent (Nodes d ! c) = Some 0 \<Longrightarrow> G \<in> F"
  shows "store_inv F (setGuid c G d)"
proof (rule store_invI)
  let ?Ns = "Nodes d"
  let ?Ns' = "Nodes (setGuid c G d)"
  have len: "length ?Ns' = length ?Ns" by (simp add: setGuid_def)
  have par: "Parent (?Ns' ! m) = Parent (?Ns ! m)" if "m < length ?Ns" for m
    using that c by (simp add: setGuid_def nth_list_update)
  have chi: "Children (?Ns' ! m) = Children (?Ns ! m)" if "m < length ?Ns" for m
    using that c by (simp add: setGuid_def nth_list_update)
  show "?Ns' \<noteq> []" using store_inv_nonempty [OF inv] by (simp add: setGuid_def)
  show "0 < c' \<and> c' < length ?Ns' \<and> Parent (?Ns' ! c') = Some n"
    if "n < length ?Ns'" "(s, c') \<in> set (Children (?Ns' ! n))" for n s c'
  proof -
    have "0 < c' \<and> c' < length ?Ns \<and> Parent (?Ns ! c') = Some n"
      using store_inv_child [OF inv, of n s c'] that len chi by simp
    then show ?thesis using len par by simp
  qed
  show "0 < InlineTree p \<and> InlineTree p < length ?Ns'"
    if "Address2ProbesMap (setGuid c G d) a = Some ps" "p \<in> set ps" for a ps p
    using store_inv_probe [OF inv, of a ps p] that len by (simp add: setGuid_def)
  show "\<exists>t. top_level_ancestor ?Ns' n t \<and> Guid (?Ns' ! t) \<in> F"
    if f: "F \<noteq> {}" and n0: "0 < n" and nl: "n < length ?Ns'" for n
  proof -
    obtain t where t: "top_level_ancestor ?Ns n t" "Guid (?Ns ! t) \<in> F"
      using store_inv_tla [OF inv f n0] nl len by auto
    have t': "top_level_ancestor ?Ns' n t"
      using t(1) by (rule tla_mono) (simp_all add: len par)
    have "Guid (?Ns' ! t) \<in> F"
    proof (cases "t = c")
      case True
      then have "G \<in> F" using G [OF f] tla_bound [OF t(1)] by simp
      then show ?thesis using True c by (simp add: setGuid_def)
    next
      case False
      then show ?thesis using t(2) by (simp add: setGuid_def)
    qed
    with t' show ?thesis by blast
  qed
qed


text \<open>Adding a new last node as a child of the node \<open>c\<close>.\<close>

lemma store_inv_new_child:
  assumes inv: "store_inv F d" and c: "c < length (Nodes d)"
    and G: "F \<noteq> {} \<Longrightarrow> c = 0 \<Longrightarrow> G \<in> F"
    and x: "Children x = []" "Parent x = Some c" "Guid x = G"
    and d': "Nodes d' = (Nodes d)[c := (Nodes d ! c)\<lparr>Children :=
                Children (Nodes d ! c) @ [(Site, length (Nodes d))]\<rparr>] @ [x]"
      "Address2ProbesMap d' = Address2ProbesMap d"
  shows "store_inv F d'"
proof (rule store_invI)
  let ?Ns = "Nodes d"
  let ?Ns' = "Nodes d'"
  let ?l = "length (Nodes d)"
  have len: "length ?Ns' = Suc ?l" by (simp add: d')
  have l0: "0 < ?l" using store_inv_nonempty [OF inv] by simp
  have par: "Parent (?Ns' ! m) = Parent (?Ns ! m)" if "m < ?l" for m
    using that c by (simp add: d' nth_append nth_list_update)
  have gui: "Guid (?Ns' ! m) = Guid (?Ns ! m)" if "m < ?l" for m
    using that c by (simp add: d' nth_append nth_list_update)
  have chi: "set (Children (?Ns' ! m)) \<subseteq> set (Children (?Ns ! m)) \<union> (if m = c then {(Site, ?l)} else {})"
    if "m < ?l" for m
    using that c by (auto simp: d' nth_append nth_list_update)
  have last: "?Ns' ! ?l = x" by (simp add: d' nth_append)
  show "?Ns' \<noteq> []" by (simp add: d')
  show "0 < c' \<and> c' < length ?Ns' \<and> Parent (?Ns' ! c') = Some n"
    if n: "n < length ?Ns'" and m: "(s, c') \<in> set (Children (?Ns' ! n))" for n s c'
  proof (cases "n = ?l")
    case True
    then show ?thesis using m last x(1) by simp
  next
    case False
    then have nl: "n < ?l" using n len by simp
    from chi [OF nl] m consider "(s, c') \<in> set (Children (?Ns ! n))" | "n = c" "c' = ?l"
      by (auto split: if_splits)
    then show ?thesis
    proof cases
      case 1
      then have "0 < c' \<and> c' < ?l \<and> Parent (?Ns ! c') = Some n"
        using store_inv_child [OF inv nl] by blast
      then show ?thesis using len par by simp
    next
      case 2
      then show ?thesis using l0 len last x(2) by simp
    qed
  qed
  show "0 < InlineTree p \<and> InlineTree p < length ?Ns'"
    if "Address2ProbesMap d' a = Some ps" "p \<in> set ps" for a ps p
    using store_inv_probe [OF inv, of a ps p] that len by (simp add: d')
  show "\<exists>t. top_level_ancestor ?Ns' n t \<and> Guid (?Ns' ! t) \<in> F"
    if f: "F \<noteq> {}" and n0: "0 < n" and nl: "n < length ?Ns'" for n
  proof -
    have old: "\<exists>t. top_level_ancestor ?Ns' m t \<and> Guid (?Ns' ! t) \<in> F"
      if m: "0 < m" "m < ?l" for m
    proof -
      obtain t where t: "top_level_ancestor ?Ns m t" "Guid (?Ns ! t) \<in> F"
        using store_inv_tla [OF inv f m] by auto
      have "top_level_ancestor ?Ns' m t"
        using t(1) by (rule tla_mono) (simp_all add: len par)
      moreover have "Guid (?Ns' ! t) \<in> F"
        using t(2) tla_bound [OF t(1)] gui by simp
      ultimately show ?thesis by blast
    qed
    show ?thesis
    proof (cases "n = ?l")
      case False
      then show ?thesis using old [of n] n0 nl len by simp
    next
      case True
      show ?thesis
      proof (cases "c = 0")
        case True
        have "top_level_ancestor ?Ns' ?l ?l"
          using l0 len last x(2) True by (intro top_level_ancestor.top) simp_all
        moreover have "Guid (?Ns' ! ?l) \<in> F" using G [OF f True] last x(3) by simp
        ultimately show ?thesis using \<open>n = ?l\<close> by blast
      next
        case False
        then obtain t where t: "top_level_ancestor ?Ns' c t" "Guid (?Ns' ! t) \<in> F"
          using old [of c] c by auto
        have "top_level_ancestor ?Ns' ?l t"
          using t(1) False len last x(2)
          by (intro top_level_ancestor.up [of ?l ?Ns' c t]) simp_all
        then show ?thesis using t(2) \<open>n = ?l\<close> by blast
      qed
    qed
  qed
qed

lemma enterNode_None:
  "Cur = None \<or> (Cur = Some 0 \<and> F \<noteq> {} \<and> G \<notin> F) \<Longrightarrow> enterNode Cur F G Index d = (None, d)"
  unfolding enterNode_def DummyInlineRoot_def by (cases Cur) auto

lemma enterNode_Some:
  "Cur = Some c \<Longrightarrow> \<not> (c = 0 \<and> F \<noteq> {} \<and> G \<notin> F) \<Longrightarrow>
     enterNode Cur F G Index d =
       (case getOrAddNode c (G, Index) d of (c', d') \<Rightarrow> (Some c', setGuid c' G d'))"
  unfolding enterNode_def DummyInlineRoot_def by auto

lemma enterNode_inv:
  assumes inv: "store_inv F d" and cur: "\<And>c. Cur = Some c \<Longrightarrow> c < length (Nodes d)"
    and e: "enterNode Cur F G Index d = (Cur', d')"
  shows "store_inv F d'" and "length (Nodes d) \<le> length (Nodes d')"
    and "\<And>c'. Cur' = Some c' \<Longrightarrow> 0 < c' \<and> c' < length (Nodes d')"
    and "Cur' \<noteq> None \<Longrightarrow> Cur \<noteq> None"
proof -
  have "store_inv F d' \<and> length (Nodes d) \<le> length (Nodes d') \<and>
          (\<forall>c'. Cur' = Some c' \<longrightarrow> 0 < c' \<and> c' < length (Nodes d')) \<and>
          (Cur' \<noteq> None \<longrightarrow> Cur \<noteq> None)"
  proof (cases "Cur = None \<or> (Cur = Some 0 \<and> F \<noteq> {} \<and> G \<notin> F)")
    case True
    have "Cur' = None" "d' = d" using e unfolding enterNode_None [OF True] by simp_all
    then show ?thesis using inv by simp
  next
    case False
    then obtain c where c: "Cur = Some c" by auto
    have nf: "\<not> (c = 0 \<and> F \<noteq> {} \<and> G \<notin> F)" using False c by simp
    note e' = e [unfolded enterNode_Some [OF c nf]]
    have cl: "c < length (Nodes d)" using cur [OF c] .
    have G: "F \<noteq> {} \<Longrightarrow> c = 0 \<Longrightarrow> G \<in> F"
      using nf by blast
    show ?thesis
    proof (cases "map_of (Children (Nodes d ! c)) (G, Index)")
      case (Some k)
      then have "((G, Index), k) \<in> set (Children (Nodes d ! c))" by (rule map_of_SomeD)
      from store_inv_child [OF inv cl this]
      have k: "0 < k" "k < length (Nodes d)" "Parent (Nodes d ! k) = Some c" by simp_all
      have "(Nodes d ! k)\<lparr>Parent := Some c\<rparr> = Nodes d ! k" using k(3) by simp
      then have g: "getOrAddNode c (G, Index) d = (k, d)"
        using Some by (simp add: getOrAddNode_def)
      have r: "Cur' = Some k" "d' = setGuid k G d"
        using e' unfolding g by simp_all
      have "store_inv F (setGuid k G d)"
        using inv k(2) by (rule store_inv_setGuid) (use G k(3) in auto)
      then show ?thesis using r k c by (simp add: setGuid_def)
    next
      case None
      let ?l = "length (Nodes d)"
      let ?d1 = "d\<lparr>Nodes := (Nodes d)[c := (Nodes d ! c)\<lparr>Children :=
                Children (Nodes d ! c) @ [((G, Index), ?l)]\<rparr>]
                  @ [(new_node (G, Index))\<lparr>Parent := Some c\<rparr>]\<rparr>"
      have g: "getOrAddNode c (G, Index) d = (?l, ?d1)"
        using None by (simp add: getOrAddNode_def Let_def)
      have r: "Cur' = Some ?l" "d' = setGuid ?l G ?d1"
        using e' unfolding g by simp_all
      have n: "Nodes d' = (Nodes d)[c := (Nodes d ! c)\<lparr>Children :=
                Children (Nodes d ! c) @ [((G, Index), ?l)]\<rparr>]
                  @ [(new_node (G, Index))\<lparr>Parent := Some c, Guid := G\<rparr>]"
        unfolding r by (simp add: setGuid_def nth_append list_update_append)
      have m: "Address2ProbesMap d' = Address2ProbesMap d"
        unfolding r by (simp add: setGuid_def)
      have "store_inv F d'"
        using inv cl G _ _ _ n m by (rule store_inv_new_child) (simp_all add: new_node_def)
      moreover have "0 < ?l" using store_inv_nonempty [OF inv] by simp
      ultimately show ?thesis using r(1) n c by simp
    qed
  qed
  then show "store_inv F d'" and "length (Nodes d) \<le> length (Nodes d')"
    and "\<And>c'. Cur' = Some c' \<Longrightarrow> 0 < c' \<and> c' < length (Nodes d')"
    and "Cur' \<noteq> None \<Longrightarrow> Cur \<noteq> None"
    by blast+
qed

lemma same_store_refl [simp]: "same_store d d"
  by (simp add: same_store_def)

lemma same_store_trans: "same_store d d' \<Longrightarrow> same_store d' d'' \<Longrightarrow> same_store d d''"
  by (simp add: same_store_def)

lemma same_store_inv: "same_store d d' \<Longrightarrow> store_inv F d' = store_inv F d"
  by (simp add: same_store_def store_inv_def)

lemma same_store_readUnencodedNumber: "readUnencodedNumber d = (r, d') \<Longrightarrow> same_store d d'"
  by (auto simp: same_store_def readUnencodedNumber_def Let_def split: if_splits)

lemma same_store_readUnsignedNumber: "readUnsignedNumber d = (r, d') \<Longrightarrow> same_store d d'"
  by (auto simp: same_store_def readUnsignedNumber_def split: prod.splits if_splits)

lemma same_store_readSignedNumber: "readSignedNumber d = (r, d') \<Longrightarrow> same_store d d'"
  by (auto simp: same_store_def readSignedNumber_def split: prod.splits if_splits)

lemma same_store_readInlineSite: "readInlineSite Cur d = (r, d') \<Longrightarrow> same_store d d'"
  by (auto simp: readInlineSite_def same_store_readUnsignedNumber split: if_splits)

lemma same_store_readAddress: "readAddress Value LastAddr d = (r, d') \<Longrightarrow> same_store d d'"
proof -
  assume a: "readAddress Value LastAddr d = (r, d')"
  show ?thesis
  proof (cases "isAddressDelta Value")
    case True
    obtain r1 d1 where 1: "(readSignedNumber d :: int64_t option \<times> _) = (r1, d1)"
      by (cases "readSignedNumber d :: int64_t option \<times> _")
    have "d' = d1" using a True 1 by (cases r1) (simp_all add: readAddress_def)
    then show ?thesis using same_store_readSignedNumber [OF 1] by simp
  next
    case False
    obtain r1 d1 where 1: "(readUnencodedNumber d :: int64_t option \<times> _) = (r1, d1)"
      by (cases "readUnencodedNumber d :: int64_t option \<times> _")
    have "d' = d1" using a False 1 by (cases r1) (simp_all add: readAddress_def)
    then show ?thesis using same_store_readUnencodedNumber [OF 1] by simp
  qed
qed

lemma same_store_readProbe_None: "same_store d (snd (snd (readProbe None LastAddr d)))"
proof -
  obtain r1 d1 where 1: "(readUnsignedNumber d :: uint32_t option \<times> _) = (r1, d1)"
    by (cases "readUnsignedNumber d :: uint32_t option \<times> _")
  obtain r2 d2 where 2: "(readUnencodedNumber d1 :: uint8_t option \<times> _) = (r2, d2)"
    by (cases "readUnencodedNumber d1 :: uint8_t option \<times> _")
  note s1 = same_store_readUnsignedNumber [OF 1]
  note s2 = same_store_trans [OF s1 same_store_readUnencodedNumber [OF 2]]
  show ?thesis
  proof (cases r1)
    case None
    then show ?thesis using 1 s1 by (simp add: readProbe_def)
  next
    case (Some Index)
    note r1 = this
    show ?thesis
    proof (cases r2)
      case None
      then show ?thesis using 1 2 r1 s2 by (simp add: readProbe_def)
    next
      case (Some Value)
      obtain r3 d3 where 3: "readAddress Value LastAddr d2 = (r3, d3)"
        by (cases "readAddress Value LastAddr d2")
      note s3 = same_store_trans [OF s2 same_store_readAddress [OF 3]]
      show ?thesis
        using 1 2 3 r1 Some s3 by (cases r3) (simp_all add: readProbe_def)
    qed
  qed
qed

text \<open>Adding a decoded probe to a node other than the root.\<close>

lemma addDecodedProbe_inv:
  assumes inv: "store_inv F d" and c: "0 < c" "c < length (Nodes d)"
  shows "store_inv F (addDecodedProbe c Addr Index K A d)"
proof (rule store_invI)
  let ?d' = "addDecodedProbe c Addr Index K A d"
  let ?Ns = "Nodes d"
  let ?Ns' = "Nodes ?d'"
  have len: "length ?Ns' = length ?Ns" by (simp add: addDecodedProbe_def Let_def)
  have par: "Parent (?Ns' ! m) = Parent (?Ns ! m)" if "m < length ?Ns" for m
    using that c by (simp add: addDecodedProbe_def Let_def nth_list_update)
  have gui: "Guid (?Ns' ! m) = Guid (?Ns ! m)" if "m < length ?Ns" for m
    using that c by (simp add: addDecodedProbe_def Let_def nth_list_update)
  have chi: "Children (?Ns' ! m) = Children (?Ns ! m)" if "m < length ?Ns" for m
    using that c by (simp add: addDecodedProbe_def Let_def nth_list_update)
  show "?Ns' \<noteq> []" using store_inv_nonempty [OF inv] by (simp add: addDecodedProbe_def Let_def)
  show "0 < c' \<and> c' < length ?Ns' \<and> Parent (?Ns' ! c') = Some n"
    if "n < length ?Ns'" "(s, c') \<in> set (Children (?Ns' ! n))" for n s c'
  proof -
    have "0 < c' \<and> c' < length ?Ns \<and> Parent (?Ns ! c') = Some n"
      using store_inv_child [OF inv, of n s c'] that len chi by simp
    then show ?thesis using len par by simp
  qed
  show "0 < InlineTree p \<and> InlineTree p < length ?Ns'"
    if m: "Address2ProbesMap ?d' a = Some ps" and p: "p \<in> set ps" for a ps p
  proof (cases "a = Addr")
    case False
    then have "Address2ProbesMap d a = Some ps"
      using m by (simp add: addDecodedProbe_def Let_def)
    from store_inv_probe [OF inv this p] show ?thesis using len by simp
  next
    case True
    let ?P0 = "case Address2ProbesMap d Addr of None \<Rightarrow> [] | Some ps \<Rightarrow> ps"
    have "ps = ?P0 @ [\<lparr>Address = Addr, ProbeGuid = Guid (Nodes d ! c), ProbeIndex = Index,
            ProbeType = K, ProbeAttributes = A, InlineTree = c\<rparr>]"
      using m True by (simp add: addDecodedProbe_def Let_def)
    then consider "p \<in> set ?P0" | "InlineTree p = c" using p by auto
    then show ?thesis
    proof cases
      case 1
      then obtain ps0 where "Address2ProbesMap d Addr = Some ps0" "p \<in> set ps0"
        by (cases "Address2ProbesMap d Addr") auto
      from store_inv_probe [OF inv this] show ?thesis using len by simp
    next
      case 2
      then show ?thesis using c len by simp
    qed
  qed
  show "\<exists>t. top_level_ancestor ?Ns' n t \<and> Guid (?Ns' ! t) \<in> F"
    if f: "F \<noteq> {}" and n0: "0 < n" and nl: "n < length ?Ns'" for n
  proof -
    obtain t where t: "top_level_ancestor ?Ns n t" "Guid (?Ns ! t) \<in> F"
      using store_inv_tla [OF inv f n0] nl len by auto
    have "top_level_ancestor ?Ns' n t"
      using t(1) by (rule tla_mono) (simp_all add: len par)
    moreover have "Guid (?Ns' ! t) \<in> F"
      using t(2) tla_bound [OF t(1)] gui by simp
    ultimately show ?thesis by blast
  qed
qed

lemma length_Nodes_addDecodedProbe [simp]:
  "length (Nodes (addDecodedProbe c Addr Index K A d)) = length (Nodes d)"
  by (simp add: addDecodedProbe_def Let_def)

lemma readProbe_cases:
  obtains (fail) "\<And>Cur. fst (readProbe Cur LastAddr d) = False"
      "\<And>Cur. fst (snd (readProbe Cur LastAddr d)) = LastAddr"
      "\<And>Cur. snd (snd (readProbe Cur LastAddr d)) = snd (snd (readProbe None LastAddr d))"
  | (ok) Index Value Addr d1 d2 d3 where
      "readUnsignedNumber d = (Some (Index :: uint32_t), d1)"
      "readUnencodedNumber d1 = (Some (Value :: uint8_t), d2)"
      "readAddress Value LastAddr d2 = (Some Addr, d3)"
      "readProbe None LastAddr d = (True, Addr, d3)"
      "\<And>c. readProbe (Some c) LastAddr d =
         (True, Addr, addDecodedProbe c Addr Index (Kind Value) (Attr Value) d3)"
proof -
  obtain r1 d1 where 1: "(readUnsignedNumber d :: uint32_t option \<times> _) = (r1, d1)"
    by (cases "readUnsignedNumber d :: uint32_t option \<times> _")
  obtain r2 d2 where 2: "(readUnencodedNumber d1 :: uint8_t option \<times> _) = (r2, d2)"
    by (cases "readUnencodedNumber d1 :: uint8_t option \<times> _")
  show ?thesis
  proof (cases r1)
    case None
    then show ?thesis using 1 by (intro fail) (simp_all add: readProbe_def)
  next
    case (Some Index)
    note r1 = this
    show ?thesis
    proof (cases r2)
      case None
      then show ?thesis using 1 2 r1 by (intro fail) (simp_all add: readProbe_def)
    next
      case (Some Value)
      obtain r3 d3 where 3: "readAddress Value LastAddr d2 = (r3, d3)"
        by (cases "readAddress Value LastAddr d2")
      show ?thesis
      proof (cases r3)
        case None
        then show ?thesis using 1 2 3 r1 Some by (intro fail) (simp_all add: readProbe_def)
      next
        case (Some Addr)
        show ?thesis
          using 1 2 3 r1 \<open>r2 = Some Value\<close> Some
          by (intro ok [of Index d1 Value d2 Addr d3]) (simp_all add: readProbe_def)
      qed
    qed
  qed
qed

lemma Data_addDecodedProbe [simp]:
  "Data (addDecodedProbe c Addr Index K A d) = Data d"
  by (simp add: addDecodedProbe_def Let_def)

lemma readProbe_inv:
  assumes inv: "store_inv F d"
    and cur: "\<And>c. Cur = Some c \<Longrightarrow> 0 < c \<and> c < length (Nodes d)"
  shows "store_inv F (snd (snd (readProbe Cur LastAddr d))) \<and>
         length (Nodes (snd (snd (readProbe Cur LastAddr d)))) = length (Nodes d)"
proof (cases LastAddr d rule: readProbe_cases)
  case fail
  have s: "same_store d (snd (snd (readProbe Cur LastAddr d)))"
    unfolding fail(3) [of Cur] by (rule same_store_readProbe_None)
  show ?thesis using inv same_store_inv [OF s, of F] s by (simp add: same_store_def)
next
  case (ok Index Value Addr d1 d2 d3)
  have s: "same_store d d3"
    using same_store_readProbe_None [of d LastAddr] unfolding ok(4) by simp
  have i3: "store_inv F d3" and l3: "length (Nodes d3) = length (Nodes d)"
    using inv same_store_inv [OF s, of F] s by (simp_all add: same_store_def)
  show ?thesis
  proof (cases Cur)
    case None
    then show ?thesis using ok(4) i3 l3 by simp
  next
    case (Some c)
    have "store_inv F (addDecodedProbe c Addr Index (Kind Value) (Attr Value) d3)"
      using i3 cur [OF Some] l3 by (intro addDecodedProbe_inv) simp_all
    then show ?thesis using Some ok(5) [of c] l3 by simp
  qed
qed

lemma readProbes_inv:
  assumes "store_inv F d"
    and "\<And>c. Cur = Some c \<Longrightarrow> 0 < c \<and> c < length (Nodes d)"
  shows "store_inv F (snd (snd (readProbes n Cur LastAddr d))) \<and>
         length (Nodes (snd (snd (readProbes n Cur LastAddr d)))) = length (Nodes d)"
  using assms
proof (induction n arbitrary: LastAddr d)
  case 0
  then show ?case by simp
next
  case (Suc n)
  obtain ok la d' where r: "readProbe Cur LastAddr d = (ok, la, d')"
    by (cases "readProbe Cur LastAddr d")
  have i: "store_inv F d'" and l: "length (Nodes d') = length (Nodes d)"
    using readProbe_inv [OF Suc.prems, of Cur LastAddr] Suc.prems(2) unfolding r by simp_all
  show ?case
  proof (cases ok)
    case False
    then show ?thesis using r i l by simp
  next
    case True
    have "store_inv F (snd (snd (readProbes n Cur la d'))) \<and>
         length (Nodes (snd (snd (readProbes n Cur la d')))) = length (Nodes d')"
      using i Suc.prems(2) l by (intro Suc.IH) simp_all
    then show ?thesis using r True l by simp
  qed
qed

lemma readHeader_inv:
  assumes inv: "store_inv F d" and cur: "\<And>c. Cur = Some c \<Longrightarrow> c < length (Nodes d)"
    and h: "readHeader Cur F d = (r, d')"
  shows "store_inv F d'" and "length (Nodes d) \<le> length (Nodes d')"
    and "\<And>Cur' x c'. r = Some (Cur', x) \<Longrightarrow> Cur' = Some c' \<Longrightarrow> 0 < c' \<and> c' < length (Nodes d')"
proof -
  have "store_inv F d' \<and> length (Nodes d) \<le> length (Nodes d') \<and>
        (\<forall>Cur' x c'. r = Some (Cur', x) \<longrightarrow> Cur' = Some c' \<longrightarrow> 0 < c' \<and> c' < length (Nodes d'))"
  proof -
    obtain r1 d1 where 1: "readInlineSite Cur d = (r1, d1)"
      by (cases "readInlineSite Cur d")
    obtain r2 d2 where 2: "(readUnencodedNumber d1 :: uint64_t option \<times> _) = (r2, d2)"
      by (cases "readUnencodedNumber d1 :: uint64_t option \<times> _")
    note s1 = same_store_readInlineSite [OF 1]
    note s2 = same_store_trans [OF s1 same_store_readUnencodedNumber [OF 2]]
    show ?thesis
    proof (cases r1)
      case None
      then have "r = None" "d' = d1" using h 1 by (simp_all add: readHeader_def)
      then show ?thesis using inv same_store_inv [OF s1, of F] s1 by (simp add: same_store_def)
    next
      case (Some Index)
      note r1 = this
      show ?thesis
      proof (cases r2)
        case None
        then have "r = None" "d' = d2" using h 1 2 r1 by (simp_all add: readHeader_def)
        then show ?thesis using inv same_store_inv [OF s2, of F] s2 by (simp add: same_store_def)
      next
        case (Some G)
        note r2 = this
        obtain Cur' d3 where 3: "enterNode Cur F G Index d2 = (Cur', d3)"
          by (cases "enterNode Cur F G Index d2")
        obtain r4 d4 where 4: "(readUnsignedNumber d3 :: uint32_t option \<times> _) = (r4, d4)"
          by (cases "readUnsignedNumber d3 :: uint32_t option \<times> _")
        obtain r5 d5 where 5: "(readUnsignedNumber d4 :: uint32_t option \<times> _) = (r5, d5)"
          by (cases "readUnsignedNumber d4 :: uint32_t option \<times> _")
        have i2: "store_inv F d2" and n2: "Nodes d2 = Nodes d"
          using inv same_store_inv [OF s2, of F] s2 by (simp_all add: same_store_def)
        have c2: "\<And>c. Cur = Some c \<Longrightarrow> c < length (Nodes d2)"
          using cur n2 by simp
        note e = enterNode_inv [OF i2 c2 3]
        note s4 = same_store_readUnsignedNumber [OF 4]
        note s5 = same_store_trans [OF s4 same_store_readUnsignedNumber [OF 5]]
        have i4: "store_inv F d4" and n4: "Nodes d4 = Nodes d3"
          using e(1) same_store_inv [OF s4, of F] s4 by (simp_all add: same_store_def)
        have i5: "store_inv F d5" and n5: "Nodes d5 = Nodes d3"
          using e(1) same_store_inv [OF s5, of F] s5 by (simp_all add: same_store_def)
        show ?thesis
        proof (cases r4)
          case None
          then have "r = None" "d' = d4"
            using h 1 2 3 4 r1 r2 by (simp_all add: readHeader_def)
          then show ?thesis using i4 n4 e(2) n2 by simp
        next
          case (Some NodeCount)
          note r4 = this
          show ?thesis
          proof (cases r5)
            case None
            then have "r = None" "d' = d5"
              using h 1 2 3 4 5 r1 r2 r4 by (simp_all add: readHeader_def)
            then show ?thesis using i5 n5 e(2) n2 by simp
          next
            case (Some ChildrenToProcess)
            then have "r = Some (Cur', NodeCount, ChildrenToProcess)" "d' = d5"
              using h 1 2 3 4 5 r1 r2 r4 by (simp_all add: readHeader_def)
            then show ?thesis using i5 n5 e(2,3) n2 by simp
          qed
        qed
      qed
    qed
  qed
  then show "store_inv F d'" and "length (Nodes d) \<le> length (Nodes d')"
    and "\<And>Cur' x c'. r = Some (Cur', x) \<Longrightarrow> Cur' = Some c' \<Longrightarrow> 0 < c' \<and> c' < length (Nodes d')"
    by blast+
qed

lemma buildAddress2ProbeMap_rec_inv:
  "store_inv F d \<Longrightarrow> (\<And>c. Cur = Some c \<Longrightarrow> c < length (Nodes d)) \<Longrightarrow>
     store_inv F (snd (snd (buildAddress2ProbeMap_rec Cur LastAddr F d))) \<and>
     length (Nodes d) \<le> length (Nodes (snd (snd (buildAddress2ProbeMap_rec Cur LastAddr F d))))"
  "store_inv F d \<Longrightarrow> (\<And>c. Cur = Some c \<Longrightarrow> c < length (Nodes d)) \<Longrightarrow>
     store_inv F (snd (buildInlinees n Cur LastAddr F d)) \<and>
     length (Nodes d) \<le> length (Nodes (snd (buildInlinees n Cur LastAddr F d)))"
proof (induction Cur LastAddr F d and n Cur LastAddr F d
    rule: buildAddress2ProbeMap_rec_buildInlinees.induct)
  case (1 Cur LastAddr F d)
  note e = buildAddress2ProbeMap_rec.simps [of Cur LastAddr F d]
  obtain r d5 where h: "readHeader Cur F d = (r, d5)"
    by (cases "readHeader Cur F d")
  note hi = readHeader_inv [OF "1.prems" h]
  show ?case
  proof (cases r)
    case None
    show ?thesis unfolding e h None using hi(1,2) by simp
  next
    case (Some t)
    obtain Cur' NodeCount ChildrenToProcess where t: "t = (Cur', NodeCount, ChildrenToProcess)"
      by (cases t)
    have c5: "\<And>c. Cur' = Some c \<Longrightarrow> 0 < c \<and> c < length (Nodes d5)"
      using hi(3) [of Cur' "(NodeCount, ChildrenToProcess)"] Some t by simp
    obtain ok la d6 where 6: "readProbes (unat NodeCount) Cur' LastAddr d5 = (ok, la, d6)"
      by (cases "readProbes (unat NodeCount) Cur' LastAddr d5")
    have i6: "store_inv F d6" and l6: "length (Nodes d6) = length (Nodes d5)"
      using readProbes_inv [OF hi(1) c5, of Cur' "unat NodeCount" LastAddr] unfolding 6
      by simp_all
    show ?thesis
    proof (cases ok)
      case False
      show ?thesis unfolding e h Some t using 6 False i6 l6 hi(2) by simp
    next
      case True
      obtain la' d7 where 7:
        "buildInlinees (unat ChildrenToProcess) Cur' la F d6 = (la', d7)"
        by (cases "buildInlinees (unat ChildrenToProcess) Cur' la F d6")
      have "store_inv F (snd (buildInlinees (unat ChildrenToProcess) Cur' la F d6)) \<and>
            length (Nodes d6) \<le> length (Nodes (snd (buildInlinees (unat ChildrenToProcess) Cur' la F d6)))"
      proof (rule "1.IH" [of "Some t" d5 t Cur' "(NodeCount, ChildrenToProcess)" NodeCount
            ChildrenToProcess ok "(la, d6)" la d6])
        show "(Some t, d5) = readHeader Cur F d" unfolding h Some ..
        show "(Cur', NodeCount, ChildrenToProcess) = t" unfolding t ..
        show "(ok, la, d6) = readProbes (unat NodeCount) Cur' LastAddr d5" unfolding 6 ..
        show ok by (rule True)
        show "store_inv F d6" by (rule i6)
        show "c < length (Nodes d6)" if "Cur' = Some c" for c
          using c5 [OF that] l6 by simp
      qed (rule refl)+
      then have "store_inv F d7" "length (Nodes d6) \<le> length (Nodes d7)"
        unfolding 7 by simp_all
      then show ?thesis unfolding e h Some t using 6 7 True l6 hi(2) by simp
    qed
  qed
next
  case (2 Cur LastAddr F d)
  then show ?case by simp
next
  case (3 n Cur LastAddr F d)
  obtain ok la d' where r: "buildAddress2ProbeMap_rec Cur LastAddr F d = (ok, la, d')"
    by (cases "buildAddress2ProbeMap_rec Cur LastAddr F d")
  have i: "store_inv F d'" and l: "length (Nodes d) \<le> length (Nodes d')"
    using "3.IH"(1) [OF "3.prems"] unfolding r by simp_all
  have "store_inv F (snd (buildInlinees n Cur la F d')) \<and>
     length (Nodes d') \<le> length (Nodes (snd (buildInlinees n Cur la F d')))"
  proof (rule "3.IH"(2) [of ok "(la, d')" la d'])
    show "(ok, la, d') = buildAddress2ProbeMap_rec Cur LastAddr F d" unfolding r ..
    show "store_inv F d'" by (rule i)
    show "c < length (Nodes d')" if "Cur = Some c" for c
      using "3.prems"(2) [OF that] l by simp
  qed (rule refl)
  then show ?case
    unfolding buildInlinees.simps r using l by simp
qed

subsection \<open>Decoding a well-formed probe section\<close>

lemma added_same: "Address2ProbesMap d' = Address2ProbesMap d \<Longrightarrow> added d d' []"
  by (simp add: added_def decoded_at_def)

lemma added_trans:
  assumes "added d d' xs" and "added d' d'' ys"
  shows "added d d'' (xs @ ys)"
  unfolding added_def
proof
  fix a
  obtain n1 where 1: "decoded_at d' a = decoded_at d a @ n1"
    "map Address n1 = replicate (count_list xs a) a"
    using assms(1) unfolding added_def by blast
  obtain n2 where 2: "decoded_at d'' a = decoded_at d' a @ n2"
    "map Address n2 = replicate (count_list ys a) a"
    using assms(2) unfolding added_def by blast
  have "decoded_at d'' a = decoded_at d a @ (n1 @ n2)" using 1(1) 2(1) by simp
  moreover have "map Address (n1 @ n2) = replicate (count_list (xs @ ys) a) a"
    using 1(2) 2(2) by (simp add: replicate_add)
  ultimately show "\<exists>new. decoded_at d'' a = decoded_at d a @ new \<and>
      map Address new = replicate (count_list (xs @ ys) a) a"
    by blast
qed

lemma added_from:
  "Address2ProbesMap d0 = Address2ProbesMap d \<Longrightarrow> added d d' xs \<Longrightarrow> added d0 d' xs"
  by (simp add: added_def decoded_at_def)

lemma added_addDecodedProbe: "added d (addDecodedProbe c Addr Index K A d) [Addr]"
  unfolding added_def
proof
  fix a
  let ?P = "\<lparr>Address = Addr, ProbeGuid = Guid (Nodes d ! c), ProbeIndex = Index, ProbeType = K,
               ProbeAttributes = A, InlineTree = c\<rparr>"
  have "decoded_at (addDecodedProbe c Addr Index K A d) a =
      decoded_at d a @ (if a = Addr then [?P] else [])"
    by (simp add: decoded_at_def addDecodedProbe_def Let_def)
  moreover have "map Address (if a = Addr then [?P] else []) = replicate (count_list [Addr] a) a"
    by simp
  ultimately show "\<exists>new. decoded_at (addDecodedProbe c Addr Index K A d) a = decoded_at d a @ new \<and>
      map Address new = replicate (count_list [Addr] a) a"
    by blast
qed

lemma consumes_addDecodedProbe:
  "consumes [] d (addDecodedProbe c Addr Index K A d)"
  by (simp add: consumes_def addDecodedProbe_def Let_def)

lemma last_Cons_append: "last (x # xs @ ys) = last (last (x # xs) # ys)"
  by simp

lemma readProbe_wire:
  assumes r: "remaining d = index @ [packed] @ address @ rest" and le: "Data d \<le> End d"
    and i: "uleb32 index" and a: "address_field packed address"
  shows "\<exists>d'. readProbe Cur LastAddr d = (True, spec_address LastAddr packed address, d') \<and>
           consumes (index @ [packed] @ address) d d' \<and>
           added d d' (if Cur = None then [] else [spec_address LastAddr packed address])"
proof -
  let ?d1 = "d\<lparr>Data := Data d + length index\<rparr>"
  let ?d2 = "?d1\<lparr>Data := Data ?d1 + length [packed]\<rparr>"
  let ?d3 = "?d2\<lparr>Data := Data ?d2 + length address\<rparr>"
  let ?A = "spec_address LastAddr packed address"
  let ?I = "of_nat (fst (decodeULEB128 index)) :: uint32_t"
  have 1: "readUnsignedNumber d = (Some ?I, ?d1)"
    using r le i by (rule readUnsignedNumber_bytes)
  have c1: "consumes index d ?d1" by simp
  note r1 = consumes_remaining [OF r le c1]
  have "readUnencodedNumber ?d1 = (Some (readNext_le [packed] :: uint8_t), ?d2)"
    using r1 by (intro readUnencodedNumber_bytes [where rest = "address @ rest"]) simp_all
  then have 2: "readUnencodedNumber ?d1 = (Some packed, ?d2)" by simp
  have c2: "consumes [packed] ?d1 ?d2" by (rule consumes_Data)
  have r1': "remaining ?d1 = [packed] @ address @ rest" using r1(1) by simp
  note r2 = consumes_remaining [OF r1' r1(2) c2]
  have 3: "readAddress packed LastAddr ?d2 = (Some ?A, ?d3)"
    using r2 a by (rule readAddress_bytes)
  have c3: "consumes address ?d2 ?d3" by (rule consumes_Data)
  have c: "consumes (index @ [packed] @ address) d ?d3"
    using c1 c2 c3 by (blast intro: consumes_append)
  have m3: "added d ?d3 []" by (rule added_same) simp
  show ?thesis
  proof (cases Cur)
    case None
    have "readProbe Cur LastAddr d = (True, ?A, ?d3)"
      using 1 2 3 None by (simp add: readProbe_def)
    then show ?thesis using c m3 None by auto
  next
    case (Some k)
    let ?d4 = "addDecodedProbe k ?A ?I (Kind packed) (Attr packed) ?d3"
    have "readProbe Cur LastAddr d = (True, ?A, ?d4)"
      using 1 2 3 Some by (simp add: readProbe_def)
    moreover have "consumes ((index @ [packed] @ address) @ []) d ?d4"
      using c consumes_addDecodedProbe by (rule consumes_append)
    moreover have "added d ?d4 ([] @ [?A])"
      using m3 added_addDecodedProbe by (rule added_trans)
    ultimately show ?thesis using Some by auto
  qed
qed

lemma readProbes_wire:
  "wire_probes LastAddr n bs addrs \<Longrightarrow> remaining d = bs @ rest \<Longrightarrow> Data d \<le> End d \<Longrightarrow>
     \<exists>d'. readProbes n Cur LastAddr d = (True, last (LastAddr # addrs), d') \<and> consumes bs d d' \<and>
          added d d' (if Cur = None then [] else addrs)"
proof (induction LastAddr n bs addrs arbitrary: d rule: wire_probes.induct)
  case (no_probe last_addr)
  then show ?case by (simp add: consumes_def added_same)
next
  case (probe index packed address last_addr n rest' addrs)
  let ?A = "spec_address last_addr packed address"
  have r: "remaining d = index @ [packed] @ address @ (rest' @ rest)"
    using probe.prems(1) by simp
  obtain d1 where 1: "readProbe Cur last_addr d = (True, ?A, d1)"
    and c1: "consumes (index @ [packed] @ address) d d1"
    and m1: "added d d1 (if Cur = None then [] else [?A])"
    using readProbe_wire [OF r probe.prems(2) probe.hyps(1,2), of Cur last_addr] by blast
  have r': "remaining d = (index @ [packed] @ address) @ (rest' @ rest)"
    using r by simp
  note r1 = consumes_remaining [OF r' probe.prems(2) c1]
  obtain d2 where 2: "readProbes n Cur ?A d1 = (True, last (?A # addrs), d2)"
    and c2: "consumes rest' d1 d2"
    and m2: "added d1 d2 (if Cur = None then [] else addrs)"
    using probe.IH [OF r1] by blast
  have "consumes ((index @ [packed] @ address) @ rest') d d2"
    using c1 c2 by (rule consumes_append)
  moreover have "added d d2 (if Cur = None then [] else ?A # addrs)"
    using added_trans [OF m1 m2] by (cases Cur) simp_all
  ultimately show ?case using 1 2 by simp
qed

lemma consumes_enterNode:
  "enterNode Cur F G Index d = (Cur', d') \<Longrightarrow> consumes [] d d'"
  by (auto simp: enterNode_def getOrAddNode_def setGuid_def consumes_def Let_def
      split: option.splits if_splits)

lemma map_enterNode:
  "enterNode Cur F G Index d = (Cur', d') \<Longrightarrow> Address2ProbesMap d' = Address2ProbesMap d"
  by (auto simp: enterNode_def getOrAddNode_def setGuid_def Let_def
      split: option.splits if_splits)

lemma enterNode_null:
  assumes "enterNode Cur F G Index d = (Cur', d')"
  shows "Cur' = None \<longleftrightarrow> Cur = None \<or> (Cur = Some 0 \<and> F \<noteq> {} \<and> G \<notin> F)"
proof (cases "Cur = None \<or> (Cur = Some 0 \<and> F \<noteq> {} \<and> G \<notin> F)")
  case True
  then show ?thesis using assms unfolding enterNode_None [OF True] by simp
next
  case False
  then obtain c where c: "Cur = Some c" by auto
  have nf: "\<not> (c = 0 \<and> F \<noteq> {} \<and> G \<notin> F)" using False c by simp
  have "Cur' \<noteq> None"
    using assms unfolding enterNode_Some [OF c nf] by (auto split: prod.splits)
  moreover have "\<not> (Cur = None \<or> (Cur = Some 0 \<and> F \<noteq> {} \<and> G \<notin> F))" by (rule False)
  ultimately show ?thesis by blast
qed

lemma readInlineSite_bytes:
  assumes "remaining d = site @ rest" and "Data d \<le> End d"
    and "if Cur = Some 0 then site = [] else uleb32 site"
  shows "\<exists>Index. readInlineSite Cur d = (Some Index, d\<lparr>Data := Data d + length site\<rparr>)"
proof (cases "Cur = Some 0")
  case True
  then show ?thesis using assms(3) by (simp add: readInlineSite_def DummyInlineRoot_def)
next
  case False
  then have "uleb32 site" using assms(3) by simp
  from readUnsignedNumber_bytes [OF assms(1,2) this] show ?thesis
    using False by (simp add: readInlineSite_def DummyInlineRoot_def)
qed

lemma readHeader_wire:
  assumes r: "remaining d = site @ guid @ nprobes @ ninlined @ rest" and le: "Data d \<le> End d"
    and site: "if Cur = Some 0 then site = [] else uleb32 site"
    and guid: "length guid = 8" and np: "uleb32 nprobes" and ni: "uleb32 ninlined"
  shows "\<exists>Cur' d'. readHeader Cur F d =
            (Some (Cur', of_nat (fst (decodeULEB128 nprobes)), of_nat (fst (decodeULEB128 ninlined))), d') \<and>
          consumes (site @ guid @ nprobes @ ninlined) d d' \<and>
          Address2ProbesMap d' = Address2ProbesMap d \<and>
          (Cur' = None \<longleftrightarrow> Cur = None \<or> (Cur = Some 0 \<and> F \<noteq> {} \<and> readNext_le guid \<notin> F))"
proof -
  let ?d1 = "d\<lparr>Data := Data d + length site\<rparr>"
  let ?d2 = "?d1\<lparr>Data := Data ?d1 + length guid\<rparr>"
  obtain Index where 1: "readInlineSite Cur d = (Some Index, ?d1)"
    using readInlineSite_bytes [OF r le site] by blast
  have c1: "consumes site d ?d1" by simp
  note r1 = consumes_remaining [OF r le c1]
  have g: "length guid = LENGTH(64) div 8" using guid by simp
  have 2: "readUnencodedNumber ?d1 = (Some (readNext_le guid :: uint64_t), ?d2)"
    using r1 g by (rule readUnencodedNumber_bytes)
  have c2: "consumes guid ?d1 ?d2" by (rule consumes_Data)
  note r2 = consumes_remaining [OF r1 c2]
  obtain Cur' d3 where 3: "enterNode Cur F (readNext_le guid) Index ?d2 = (Cur', d3)"
    by (cases "enterNode Cur F (readNext_le guid) Index ?d2")
  have c3: "consumes [] ?d2 d3" using 3 by (rule consumes_enterNode)
  have m3: "Address2ProbesMap d3 = Address2ProbesMap d" using map_enterNode [OF 3] by simp
  have r2': "remaining ?d2 = [] @ nprobes @ ninlined @ rest" using r2(1) by simp
  note r3 = consumes_remaining [OF r2' r2(2) c3]
  let ?d4 = "d3\<lparr>Data := Data d3 + length nprobes\<rparr>"
  let ?d5 = "?d4\<lparr>Data := Data ?d4 + length ninlined\<rparr>"
  have 4: "readUnsignedNumber d3 = (Some (of_nat (fst (decodeULEB128 nprobes)) :: uint32_t), ?d4)"
    using r3 np by (rule readUnsignedNumber_bytes)
  have c4: "consumes nprobes d3 ?d4" by (rule consumes_Data)
  note r4 = consumes_remaining [OF r3 c4]
  have 5: "readUnsignedNumber ?d4 = (Some (of_nat (fst (decodeULEB128 ninlined)) :: uint32_t), ?d5)"
    using r4 ni by (rule readUnsignedNumber_bytes)
  have c5: "consumes ninlined ?d4 ?d5" by (rule consumes_Data)
  have "consumes (site @ guid @ [] @ nprobes @ ninlined) d ?d5"
    using c1 c2 c3 c4 c5 by (blast intro: consumes_append)
  moreover have "readHeader Cur F d =
      (Some (Cur', of_nat (fst (decodeULEB128 nprobes)), of_nat (fst (decodeULEB128 ninlined))), ?d5)"
    using 1 2 3 4 5 by (simp add: readHeader_def)
  moreover have "Address2ProbesMap ?d5 = Address2ProbesMap d" using m3 by simp
  ultimately show ?thesis using enterNode_null [OF 3] by auto
qed

lemma wire_body_decodes:
  "wire_body toplevel g LastAddr bs addrs \<Longrightarrow> remaining d = bs @ rest \<Longrightarrow> Data d \<le> End d \<Longrightarrow>
     store_inv F d \<Longrightarrow> (\<And>c. Cur = Some c \<Longrightarrow> c < length (Nodes d)) \<Longrightarrow>
     toplevel = (Cur = Some 0) \<Longrightarrow>
     \<exists>d'. buildAddress2ProbeMap_rec Cur LastAddr F d = (True, last (LastAddr # addrs), d') \<and>
          consumes bs d d' \<and>
          added d d' (if Cur = None \<or> (toplevel \<and> F \<noteq> {} \<and> g \<notin> F) then [] else addrs)"
  "wire_inlined LastAddr n bs addrs \<Longrightarrow> remaining d = bs @ rest \<Longrightarrow> Data d \<le> End d \<Longrightarrow>
     store_inv F d \<Longrightarrow> (\<And>c. Cur = Some c \<Longrightarrow> 0 < c \<and> c < length (Nodes d)) \<Longrightarrow>
     \<exists>d'. buildInlinees n Cur LastAddr F d = (last (LastAddr # addrs), d') \<and> consumes bs d d' \<and>
          added d d' (if Cur = None then [] else addrs)"
proof (induction toplevel g LastAddr bs addrs and LastAddr n bs addrs
    arbitrary: Cur d rest and Cur d rest rule: wire_body_wire_inlined.inducts)
  case (body toplevel site guid nprobes ninlined last_addr probes addrs inlinees addrs')
  let ?hd = "site @ guid @ nprobes @ ninlined"
  let ?g = "readNext_le guid :: uint64_t"
  have r: "remaining d = site @ guid @ nprobes @ ninlined @ (probes @ inlinees @ rest)"
    using body.prems(1) by simp
  have s: "if Cur = Some 0 then site = [] else uleb32 site"
    using body.hyps(1) body.prems(5) by simp
  obtain Cur' d5 where h: "readHeader Cur F d =
      (Some (Cur', of_nat (fst (decodeULEB128 nprobes)), of_nat (fst (decodeULEB128 ninlined))), d5)"
    and c5: "consumes ?hd d d5"
    and m5: "Address2ProbesMap d5 = Address2ProbesMap d"
    and n5: "Cur' = None \<longleftrightarrow> Cur = None \<or> (Cur = Some 0 \<and> F \<noteq> {} \<and> ?g \<notin> F)"
    using readHeader_wire [OF r body.prems(2) s body.hyps(2,3,4), of F] by blast
  have r': "remaining d = ?hd @ (probes @ inlinees @ rest)" using r by simp
  note r5 = consumes_remaining [OF r' body.prems(2) c5]
  note hi = readHeader_inv [OF body.prems(3,4) h]
  have cur5: "\<And>c. Cur' = Some c \<Longrightarrow> 0 < c \<and> c < length (Nodes d5)"
    using hi(3) by blast
  let ?np = "unat (of_nat (fst (decodeULEB128 nprobes)) :: uint32_t)"
  let ?ni = "unat (of_nat (fst (decodeULEB128 ninlined)) :: uint32_t)"
  have np: "?np = fst (decodeULEB128 nprobes)" and ni: "?ni = fst (decodeULEB128 ninlined)"
    using unat_uleb32 body.hyps(3,4) by simp_all
  let ?la = "last (last_addr # addrs)"
  obtain d6 where 6: "readProbes ?np Cur' last_addr d5 = (True, ?la, d6)"
    and c6: "consumes probes d5 d6"
    and m6: "added d5 d6 (if Cur' = None then [] else addrs)"
    using readProbes_wire [OF body.hyps(5) r5, of Cur'] unfolding np by blast
  note r6 = consumes_remaining [OF r5 c6]
  have i6: "store_inv F d6" and l6: "length (Nodes d6) = length (Nodes d5)"
    using readProbes_inv [OF hi(1) cur5, of Cur' ?np last_addr] unfolding 6 by simp_all
  have cur6: "\<And>c. Cur' = Some c \<Longrightarrow> 0 < c \<and> c < length (Nodes d6)"
    using cur5 l6 by simp
  have "\<exists>d'. buildInlinees (fst (decodeULEB128 ninlined)) Cur' ?la F d6 = (last (?la # addrs'), d') \<and>
          consumes inlinees d6 d' \<and> added d6 d' (if Cur' = None then [] else addrs')"
    using r6 i6 cur6 by (rule body.IH)
  then obtain d7 where 7: "buildInlinees ?ni Cur' ?la F d6 = (last (?la # addrs'), d7)"
    and c7: "consumes inlinees d6 d7"
    and m7: "added d6 d7 (if Cur' = None then [] else addrs')"
    unfolding ni by blast
  have "consumes (?hd @ probes @ inlinees) d d7"
    using c5 c6 c7 by (blast intro: consumes_append)
  moreover have "buildAddress2ProbeMap_rec Cur last_addr F d = (True, last (last_addr # addrs @ addrs'), d7)"
    using h 6 7 by simp
  moreover have "added d d7 (if Cur' = None then [] else addrs @ addrs')"
    using added_from [OF m5 [symmetric] added_trans [OF m6 m7]] by (cases Cur') simp_all
  ultimately show ?case using n5 body.prems(5) by auto
next
  case (no_body last_addr)
  then show ?case by (simp add: consumes_def added_same)
next
  case (inlined g last_addr b addrs n rest' addrs')
  have r: "remaining d = b @ (rest' @ rest)" using inlined.prems(1) by simp
  have cur: "\<And>c. Cur = Some c \<Longrightarrow> c < length (Nodes d)"
    using inlined.prems(4) by blast
  have nt: "False = (Cur = Some 0)" using inlined.prems(4) [of 0] by auto
  let ?la = "last (last_addr # addrs)"
  obtain d1 where 1: "buildAddress2ProbeMap_rec Cur last_addr F d = (True, ?la, d1)"
    and c1: "consumes b d d1"
    and m1: "added d d1 (if Cur = None then [] else addrs)"
    using inlined.IH(1) [OF r inlined.prems(2,3) cur nt] by auto
  note r1 = consumes_remaining [OF r inlined.prems(2) c1]
  have i1: "store_inv F d1" and l1: "length (Nodes d) \<le> length (Nodes d1)"
    using buildAddress2ProbeMap_rec_inv(1) [OF inlined.prems(3) cur, of Cur last_addr]
    unfolding 1 by simp_all
  have cur1: "\<And>c. Cur = Some c \<Longrightarrow> 0 < c \<and> c < length (Nodes d1)"
    using inlined.prems(4) l1 by fastforce
  obtain d2 where 2: "buildInlinees n Cur ?la F d1 = (last (?la # addrs'), d2)"
    and c2: "consumes rest' d1 d2"
    and m2: "added d1 d2 (if Cur = None then [] else addrs')"
    using inlined.IH(2) [OF r1 i1 cur1] by blast
  have "consumes (b @ rest') d d2" using c1 c2 by (rule consumes_append)
  moreover have "added d d2 (if Cur = None then [] else addrs @ addrs')"
    using added_trans [OF m1 m2] by (cases Cur) simp_all
  ultimately show ?case using 1 2 by simp
qed

lemma wire_body_length: "wire_body toplevel g LastAddr bs addrs \<Longrightarrow> 8 \<le> length bs"
  by (erule wire_body.cases) simp

lemma kept_append: "kept F (xs @ ys) = kept F xs @ kept F ys"
  by (simp add: kept_def)

lemma kept_top: "kept F (map (Pair g) addrs) = (if F \<noteq> {} \<and> g \<notin> F then [] else addrs)"
  by (induction addrs) (auto simp: kept_def)

lemma store_inv_start_at [simp]: "store_inv F (start_at Start d) = store_inv F d"
  by (simp add: store_inv_def start_at_def)

lemma wire_section_loop:
  "wire_section LastAddr bs recs \<Longrightarrow> remaining d = bs \<Longrightarrow> Data d \<le> End d \<Longrightarrow>
     End d \<le> length (Buf d) \<Longrightarrow> store_inv F d \<Longrightarrow>
     \<exists>d'. buildAddress2ProbeMap_loop F LastAddr d = Some d' \<and> Data d' = End d' \<and>
          End d' = End d \<and> store_inv F d' \<and> added d d' (kept F recs)"
proof (induction LastAddr bs recs arbitrary: d rule: wire_section.induct)
  case (empty_section last_addr)
  have "\<not> Data d < End d"
    using remaining_Nil [OF empty_section(1,3)] by simp
  then have "buildAddress2ProbeMap_loop F last_addr d = Some d"
    by (subst buildAddress2ProbeMap_loop.simps) simp
  then show ?case
    using empty_section(2,4) remaining_Nil [OF empty_section(1,3)]
    by (simp add: kept_def added_same)
next
  case (top_level g last_addr b addrs rest recs)
  have nz: "Nodes d \<noteq> []" using store_inv_nonempty [OF top_level.prems(4)] .
  have cur: "\<And>c. Some (0::nat) = Some c \<Longrightarrow> c < length (Nodes d)" using nz by auto
  let ?la = "last (last_addr # addrs)"
  obtain d1 where 1: "buildAddress2ProbeMap_rec (Some 0) last_addr F d = (True, ?la, d1)"
    and c1: "consumes b d d1"
    and m1: "added d d1 (if F \<noteq> {} \<and> g \<notin> F then [] else addrs)"
    using wire_body_decodes(1) [OF top_level.hyps(1) top_level.prems(1,2,4), of "Some 0"] cur
    by auto
  note r1 = consumes_remaining [OF top_level.prems(1,2) c1]
  have i1: "store_inv F d1"
    using buildAddress2ProbeMap_rec_inv(1) [OF top_level.prems(4), of "Some 0" last_addr] cur
    unfolding 1 by simp
  have e1: "End d1 \<le> length (Buf d1)" "End d1 = End d"
    using c1 top_level.prems(3) by (simp_all add: consumes_def)
  obtain d' where 2: "buildAddress2ProbeMap_loop F ?la d1 = Some d'"
    and p: "Data d' = End d'" "End d' = End d1" "store_inv F d'"
    and m2: "added d1 d' (kept F recs)"
    using top_level.IH [OF r1 e1(1) i1] by blast
  have lt: "Data d < End d"
    using remaining_length [OF top_level.prems(1,2)] wire_body_length [OF top_level.hyps(1)]
    by simp
  have "buildAddress2ProbeMap_loop F last_addr d = Some d'"
    using lt 1 2 by (subst buildAddress2ProbeMap_loop.simps) (simp add: DummyInlineRoot_def)
  moreover have "added d d' (kept F (map (Pair g) addrs @ recs))"
    using added_trans [OF m1 m2] by (simp add: kept_append kept_top)
  ultimately show ?case using p e1(2) by simp
qed

lemma wire_section_decodes:
  assumes "wire_section 0 Start recs" and "store_inv F d"
  shows "\<exists>d'. buildAddress2ProbeMap Start F d = Some (True, d') \<and> Data d' = length Start \<and>
           store_inv F d' \<and> added d d' (kept F recs)"
proof -
  have "\<exists>d'. buildAddress2ProbeMap_loop F 0 (start_at Start d) = Some d' \<and> Data d' = End d' \<and>
          End d' = End (start_at Start d) \<and> store_inv F d' \<and> added (start_at Start d) d' (kept F recs)"
  proof (rule wire_section_loop [OF assms(1)])
    show "remaining (start_at Start d) = Start" by simp
    show "Data (start_at Start d) \<le> End (start_at Start d)" by (simp add: start_at_def)
    show "End (start_at Start d) \<le> length (Buf (start_at Start d))" by (simp add: start_at_def)
    show "store_inv F (start_at Start d)" using assms(2) by simp
  qed
  then obtain d' where l: "buildAddress2ProbeMap_loop F 0 (start_at Start d) = Some d'"
    and p: "Data d' = End d'" "End d' = End (start_at Start d)" "store_inv F d'"
    and m: "added (start_at Start d) d' (kept F recs)"
    by blast
  have "added d d' (kept F recs)"
    using m by (rule added_from [rotated]) (simp add: start_at_def)
  moreover have "buildAddress2ProbeMap Start F d = Some (True, d')"
    unfolding buildAddress2ProbeMap_def l using p(1) by simp
  moreover have "Data d' = length Start" using p(1,2) by (simp add: start_at_def)
  ultimately show ?thesis using p(3) by blast
qed

subsection \<open>The example section\<close>

lemma store_inv_new_decoder: "store_inv F new_decoder"
  by (simp add: store_inv_def new_decoder_def new_node_def)

lemma store_inv_Data [simp]: "store_inv F (d\<lparr>Data := x\<rparr>) = store_inv F d"
  by (simp add: store_inv_def)

lemma inlinee_ex_wire:
  "wire_body False 0xCC 0x1005 [1, 0xCC, 0, 0, 0, 0, 0, 0, 0, 1, 0, 2, 0x80, 0x7f] [0x1004]"
proof -
  have u: "uleb32 [0]" "uleb32 [1]" "uleb32 [2]"
    by (simp_all add: uleb32_def is_leb128_def)
  have n: "fst (decodeULEB128 [0]) = 0" "fst (decodeULEB128 [1]) = Suc 0"
    by simp_all
  have f: "address_field 0x80 [0x7f]"
    by (simp add: address_field_def isAddressDelta_def sleb64_def is_leb128_def)
  have a: "spec_address 0x1005 0x80 [0x7f] = 0x1004"
    by (simp add: spec_address_def isAddressDelta_def)
  have g: "(readNext_le [0xCC, 0, 0, 0, 0, 0, 0, 0] :: uint64_t) = 0xCC" by simp
  have "wire_probes 0x1005 (Suc 0) ([2] @ [0x80] @ [0x7f] @ []) [spec_address 0x1005 0x80 [0x7f]]"
    using u f by (intro wire_probes.intros)
  then have p: "wire_probes 0x1005 (Suc 0) ([2] @ [0x80] @ [0x7f] @ []) [0x1004]"
    unfolding a .
  have "wire_body False (readNext_le [0xCC, 0, 0, 0, 0, 0, 0, 0]) 0x1005
      ([1] @ [0xCC, 0, 0, 0, 0, 0, 0, 0] @ [1] @ [0] @ ([2] @ [0x80] @ [0x7f] @ []) @ [])
      ([0x1004] @ [])"
    using u p by (intro wire_body_wire_inlined.body) (simp_all add: n wire_body_wire_inlined.no_body)
  then show ?thesis unfolding g by simp
qed

lemma section_ex_wire: "wire_section 0 section_ex recs_ex"
proof -
  have u: "uleb32 [0]" "uleb32 [1]"
    by (simp_all add: uleb32_def is_leb128_def)
  have n: "fst (decodeULEB128 [0]) = 0" "fst (decodeULEB128 [1]) = Suc 0"
    by simp_all
  have f: "address_field 0 [0, 0x10, 0, 0, 0, 0, 0, 0]" "address_field 0x80 [5]"
    by (simp_all add: address_field_def isAddressDelta_def sleb64_def is_leb128_def)
  have a: "spec_address 0 0 [0, 0x10, 0, 0, 0, 0, 0, 0] = 0x1000"
    "spec_address 0x1000 0x80 [5] = 0x1005"
    by (simp_all add: spec_address_def isAddressDelta_def)
  have g: "(readNext_le [0xAA, 0, 0, 0, 0, 0, 0, 0] :: uint64_t) = 0xAA"
    "(readNext_le [0xBB, 0, 0, 0, 0, 0, 0, 0] :: uint64_t) = 0xBB"
    by simp_all
  have "wire_probes 0 (Suc 0) ([1] @ [0] @ [0, 0x10, 0, 0, 0, 0, 0, 0] @ [])
      [spec_address 0 0 [0, 0x10, 0, 0, 0, 0, 0, 0]]"
    using u f by (intro wire_probes.intros)
  then have p1: "wire_probes 0 (Suc 0) ([1] @ [0] @ [0, 0x10, 0, 0, 0, 0, 0, 0] @ []) [0x1000]"
    unfolding a .
  have "wire_probes 0x1000 (Suc 0) ([1] @ [0x80] @ [5] @ []) [spec_address 0x1000 0x80 [5]]"
    using u f by (intro wire_probes.intros)
  then have p2: "wire_probes 0x1000 (Suc 0) ([1] @ [0x80] @ [5] @ []) [0x1005]"
    unfolding a .
  have "wire_body True (readNext_le [0xAA, 0, 0, 0, 0, 0, 0, 0]) 0
      ([] @ [0xAA, 0, 0, 0, 0, 0, 0, 0] @ [1] @ [0] @
         ([1] @ [0] @ [0, 0x10, 0, 0, 0, 0, 0, 0] @ []) @ [])
      ([0x1000] @ [])"
    using u p1 by (intro wire_body_wire_inlined.body) (simp_all add: n wire_body_wire_inlined.no_body)
  then have b1: "wire_body True 0xAA 0
      ([] @ [0xAA, 0, 0, 0, 0, 0, 0, 0] @ [1] @ [0] @
         ([1] @ [0] @ [0, 0x10, 0, 0, 0, 0, 0, 0] @ []) @ [])
      [0x1000]"
    unfolding g by simp
  have "wire_inlined (last [0x1000, 0x1005]) (Suc 0)
      ([1, 0xCC, 0, 0, 0, 0, 0, 0, 0, 1, 0, 2, 0x80, 0x7f] @ []) ([0x1004] @ [])"
    using inlinee_ex_wire
    by (intro wire_body_wire_inlined.inlined [where g = "0xCC"])
      (simp_all add: wire_body_wire_inlined.no_body)
  then have i2: "wire_inlined (last [0x1000, 0x1005]) (Suc 0)
      ([1, 0xCC, 0, 0, 0, 0, 0, 0, 0, 1, 0, 2, 0x80, 0x7f] @ []) [0x1004]"
    by simp
  have "wire_body True (readNext_le [0xBB, 0, 0, 0, 0, 0, 0, 0]) 0x1000
      ([] @ [0xBB, 0, 0, 0, 0, 0, 0, 0] @ [1] @ [1] @ ([1] @ [0x80] @ [5] @ []) @
         ([1, 0xCC, 0, 0, 0, 0, 0, 0, 0, 1, 0, 2, 0x80, 0x7f] @ []))
      ([0x1005] @ [0x1004])"
    using u p2 i2 by (intro wire_body_wire_inlined.body) (simp_all add: n)
  then have b2: "wire_body True 0xBB (last [0, 0x1000])
      ([] @ [0xBB, 0, 0, 0, 0, 0, 0, 0] @ [1] @ [1] @ ([1] @ [0x80] @ [5] @ []) @
         ([1, 0xCC, 0, 0, 0, 0, 0, 0, 0, 1, 0, 2, 0x80, 0x7f] @ []))
      [0x1005, 0x1004]"
    unfolding g by simp
  have s2: "wire_section (last [0, 0x1000])
      (([] @ [0xBB, 0, 0, 0, 0, 0, 0, 0] @ [1] @ [1] @ ([1] @ [0x80] @ [5] @ []) @
         ([1, 0xCC, 0, 0, 0, 0, 0, 0, 0, 1, 0, 2, 0x80, 0x7f] @ [])) @ [])
      (map (Pair 0xBB) [0x1005, 0x1004] @ [])"
    using b2 by (rule wire_section.top_level) (rule wire_section.empty_section)
  have "wire_section 0
      (([] @ [0xAA, 0, 0, 0, 0, 0, 0, 0] @ [1] @ [0] @
         ([1] @ [0] @ [0, 0x10, 0, 0, 0, 0, 0, 0] @ []) @ []) @
       (([] @ [0xBB, 0, 0, 0, 0, 0, 0, 0] @ [1] @ [1] @ ([1] @ [0x80] @ [5] @ []) @
         ([1, 0xCC, 0, 0, 0, 0, 0, 0, 0, 1, 0, 2, 0x80, 0x7f] @ [])) @ []))
      (map (Pair 0xAA) [0x1000] @ (map (Pair 0xBB) [0x1005, 0x1004] @ []))"
    using b1 s2 by (rule wire_section.top_level)
  then show ?thesis by (simp add: section_ex_def recs_ex_def)
qed

lemma not_continued_1: "\<not> (128 :: uint8_t) \<le> 1"
  by (simp add: word_le_nat_alt)

lemmas decode_eval =
  start_at_def new_decoder_def readHeader_def readInlineSite_def readUnencodedNumber_def
  readUnsignedNumber_def readSignedNumber_def enterNode_def getOrAddNode_def setGuid_def
  readProbe_def readAddress_def isAddressDelta_def addDecodedProbe_def DummyInlineRoot_def
  new_node_def Kind_def Attr_def Let_def not_continued_1

lemma section_ex_first:
  "buildAddress2ProbeMap_rec (Some 0) 0 {0xBB} (start_at section_ex new_decoder) =
     (True, 0x1000, (start_at section_ex new_decoder)\<lparr>Data := 20\<rparr>)"
  by (simp add: section_ex_def decode_eval)

lemma section_ex_second:
  "buildAddress2ProbeMap_rec (Some 0) 0x1000 {0xBB} ((start_at section_ex new_decoder)\<lparr>Data := 20\<rparr>) =
     (True, 0x1004, decoded_ex)"
proof -
  have m: "[0x1005 \<mapsto>
           [\<lparr>Address = 0x1005, ProbeGuid = 0xBB, ProbeIndex = 1, ProbeType = 0,
              ProbeAttributes = 0, InlineTree = 1\<rparr>],
         0x1004 \<mapsto>
           [\<lparr>Address = 0x1004, ProbeGuid = 0xCC, ProbeIndex = 2, ProbeType = 0,
              ProbeAttributes = 0, InlineTree = 2\<rparr>]] =
       [(0x1005 :: uint64_t) \<mapsto>
           [\<lparr>Address = 0x1005, ProbeGuid = 0xBB, ProbeIndex = 1, ProbeType = 0,
              ProbeAttributes = 0, InlineTree = Suc 0\<rparr>],
         0x1004 \<mapsto>
           [\<lparr>Address = 0x1004, ProbeGuid = 0xCC, ProbeIndex = 2, ProbeType = 0,
              ProbeAttributes = 0, InlineTree = Suc (Suc 0)\<rparr>]]"
    by (simp add: numeral_2_eq_2)
  show ?thesis
    unfolding decoded_ex_def m
    by (simp add: section_ex_def decode_eval)
qed

lemma section_ex_decoded:
  "buildAddress2ProbeMap section_ex {0xBB} new_decoder = Some (True, decoded_ex)"
proof -
  let ?s = "start_at section_ex new_decoder"
  have 3: "buildAddress2ProbeMap_loop {0xBB} 0x1004 decoded_ex = Some decoded_ex"
    by (subst buildAddress2ProbeMap_loop.simps) (simp add: decoded_ex_def)
  have l2: "Data (?s\<lparr>Data := 20\<rparr>) < End (?s\<lparr>Data := 20\<rparr>)"
    by (simp add: start_at_def section_ex_def)
  have 2: "buildAddress2ProbeMap_loop {0xBB} 0x1000 (?s\<lparr>Data := 20\<rparr>) = Some decoded_ex"
    by (subst buildAddress2ProbeMap_loop.simps)
      (simp only: l2 if_True DummyInlineRoot_def section_ex_second prod.case 3)
  have l1: "Data ?s < End ?s"
    by (simp add: start_at_def section_ex_def)
  have 1: "buildAddress2ProbeMap_loop {0xBB} 0 ?s = Some decoded_ex"
    by (subst buildAddress2ProbeMap_loop.simps)
      (simp only: l1 if_True DummyInlineRoot_def section_ex_first prod.case 2)
  show ?thesis
    unfolding buildAddress2ProbeMap_def 1 by (simp add: decoded_ex_def)
qed

subsection \<open>The address cursor of the probe section parse\<close>

text \<open>
  C4. The cursor of the specification (\<open>wire_body\<close>, \<open>wire_section\<close>) starts a section at
  0, goes from every probe record to the next one in the bytes, through the probes of a
  function, into and out of its inlinees and from one top-level function to the next,
  and is the address of the record it has just passed. The decoder's \<open>LastAddr\<close> is this
  cursor. First, for one function body at the decoder's cursor, whether \<open>Cur\<close> is a node
  of the tree, the root, or null because the subtree is filtered out: the recursive
  \<open>buildAddress2ProbeMap\<close> returns successfully, hands back as \<open>LastAddr\<close> the address of
  the last probe record of the body (the \<open>LastAddr\<close> it was given when the body has
  none), and has added to the address map the probes at the addresses of the body,
  none when the body is filtered out. Second, for a whole section:
  \<open>buildAddress2ProbeMap\<close> returns, and the address map has, for every address, one more
  probe with this address for every record with this address of a function that passes
  the filter; the addresses are those the cursor gives when it also passes over the
  records of the functions that do not.
\<close>

theorem last_addr_cursor:
  "(wire_body toplevel g LastAddr bs addrs \<longrightarrow> remaining d = bs @ rest \<longrightarrow> Data d \<le> End d \<longrightarrow>
      store_inv F d \<longrightarrow> (\<forall>c. Cur = Some c \<longrightarrow> c < length (Nodes d)) \<longrightarrow>
      toplevel = (Cur = Some DummyInlineRoot) \<longrightarrow>
      (\<exists>d'. buildAddress2ProbeMap_rec Cur LastAddr F d = (True, last (LastAddr # addrs), d') \<and>
            added d d' (if Cur = None \<or> (toplevel \<and> F \<noteq> {} \<and> g \<notin> F) then [] else addrs)))
   \<and> (wire_section 0 Start recs \<longrightarrow> store_inv F d0 \<longrightarrow>
      (\<exists>d'. buildAddress2ProbeMap Start F d0 = Some (True, d') \<and>
            (\<forall>a. \<exists>new. decoded_at d' a = decoded_at d0 a @ new \<and>
                        map Address new = replicate (count_list (kept F recs) a) a)))"
proof (intro conjI impI)
  assume w: "wire_body toplevel g LastAddr bs addrs" and r: "remaining d = bs @ rest"
    and l: "Data d \<le> End d" and i: "store_inv F d"
    and c: "\<forall>c. Cur = Some c \<longrightarrow> c < length (Nodes d)"
    and t: "toplevel = (Cur = Some DummyInlineRoot)"
  have c': "\<And>c. Cur = Some c \<Longrightarrow> c < length (Nodes d)" using c by blast
  have t': "toplevel = (Cur = Some 0)" using t by (simp add: DummyInlineRoot_def)
  from wire_body_decodes(1) [OF w r l i c' t']
  show "\<exists>d'. buildAddress2ProbeMap_rec Cur LastAddr F d = (True, last (LastAddr # addrs), d') \<and>
            added d d' (if Cur = None \<or> (toplevel \<and> F \<noteq> {} \<and> g \<notin> F) then [] else addrs)"
    by blast
next
  assume "wire_section 0 Start recs" "store_inv F d0"
  from wire_section_decodes [OF this]
  show "\<exists>d'. buildAddress2ProbeMap Start F d0 = Some (True, d') \<and>
            (\<forall>a. \<exists>new. decoded_at d' a = decoded_at d0 a @ new \<and>
                        map Address new = replicate (count_list (kept F recs) a) a)"
    unfolding added_def by blast
qed

theorem last_addr_cursor_witness:
  "fst (snd (buildAddress2ProbeMap_rec None 0x1005 {0xBB} at_inlinee_ex)) = 0x1004
   \<and> (\<exists>d'. buildAddress2ProbeMap section_ex {0xBB} new_decoder = Some (True, d') \<and>
        decoded_at d' 0x1000 = [] \<and> map Address (decoded_at d' 0x1005) = [0x1005] \<and>
        map Address (decoded_at d' 0x1004) = [0x1004])"
proof -
  have r: "remaining at_inlinee_ex = [1, 0xCC, 0, 0, 0, 0, 0, 0, 0, 1, 0, 2, 0x80, 0x7f] @ []"
    by (simp add: at_inlinee_ex_def remaining_def start_at_def section_ex_def)
  have l: "Data at_inlinee_ex \<le> End at_inlinee_ex"
    by (simp add: at_inlinee_ex_def start_at_def section_ex_def)
  have i: "store_inv {0xBB} at_inlinee_ex"
    by (simp add: at_inlinee_ex_def store_inv_new_decoder)
  have c: "\<forall>c. (None :: nat option) = Some c \<longrightarrow> c < length (Nodes at_inlinee_ex)"
    "False = ((None :: nat option) = Some DummyInlineRoot)"
    by simp_all
  note t1 = last_addr_cursor [THEN conjunct1, THEN mp, THEN mp, THEN mp, THEN mp, THEN mp,
      THEN mp, OF inlinee_ex_wire r l i c]
  then obtain d1 where "buildAddress2ProbeMap_rec None 0x1005 {0xBB} at_inlinee_ex =
          (True, last [0x1005, 0x1004], d1)"
    by (elim exE conjE)
  then have 1: "fst (snd (buildAddress2ProbeMap_rec None 0x1005 {0xBB} at_inlinee_ex)) = 0x1004"
    by simp
  have k: "kept {0xBB} recs_ex = [0x1005, 0x1004]"
    by (simp add: kept_def recs_ex_def)
  have e: "decoded_at new_decoder a = []" for a
    by (simp add: decoded_at_def new_decoder_def)
  note t2 = last_addr_cursor [THEN conjunct2, THEN mp, THEN mp,
      OF section_ex_wire store_inv_new_decoder [of "{0xBB}"]]
  then obtain d' where d': "buildAddress2ProbeMap section_ex {0xBB} new_decoder = Some (True, d')"
    and m: "\<forall>a. \<exists>new. decoded_at d' a = decoded_at new_decoder a @ new \<and>
                        map Address new = replicate (count_list (kept {0xBB} recs_ex) a) a"
    by (elim exE conjE)
  have 2: "decoded_at d' 0x1000 = []"
    using m [rule_format, of "0x1000"] unfolding k e by simp
  have 3: "map Address (decoded_at d' 0x1005) = [0x1005]"
    using m [rule_format, of "0x1005"] unfolding k e by auto
  have 4: "map Address (decoded_at d' 0x1004) = [0x1004]"
    using m [rule_format, of "0x1004"] unfolding k e by auto
  show ?thesis using 1 d' 2 3 4 by (intro conjI exI [of _ d'])
qed

subsection \<open>The GUID filter\<close>

text \<open>
  C3. On a well-formed probe section, with a non-empty filter \<open>F\<close> and a decoder whose
  store has the shape the build keeps (a fresh decoder has it), \<open>buildAddress2ProbeMap\<close>
  returns with the cursor at the end of the byte range, every probe of the address map
  belongs to a node with a top-level ancestor whose GUID is in \<open>F\<close>, and so does every
  node of the tree other than the root: a filtered subtree leaves neither probes nor
  nodes.
\<close>

theorem filter_containment:
  assumes "wire_section 0 Start recs" and "F \<noteq> {}" and "store_inv F d"
  shows "\<exists>d'. buildAddress2ProbeMap Start F d = Some (True, d') \<and> Data d' = length Start \<and>
     (\<forall>a Ps P. Address2ProbesMap d' a = Some Ps \<longrightarrow> P \<in> set Ps \<longrightarrow>
        (\<exists>t. top_level_ancestor (Nodes d') (InlineTree P) t \<and> Guid (Nodes d' ! t) \<in> F)) \<and>
     (\<forall>n. 0 < n \<and> n < length (Nodes d') \<longrightarrow>
        (\<exists>t. top_level_ancestor (Nodes d') n t \<and> Guid (Nodes d' ! t) \<in> F))"
proof -
  obtain d' where r: "buildAddress2ProbeMap Start F d = Some (True, d')"
    and c: "Data d' = length Start" and i: "store_inv F d'"
    using wire_section_decodes [OF assms(1,3)] by blast
  have n: "\<exists>t. top_level_ancestor (Nodes d') n t \<and> Guid (Nodes d' ! t) \<in> F"
    if "0 < n" "n < length (Nodes d')" for n
    using store_inv_tla [OF i assms(2) that] .
  have "\<exists>t. top_level_ancestor (Nodes d') (InlineTree P) t \<and> Guid (Nodes d' ! t) \<in> F"
    if "Address2ProbesMap d' a = Some Ps" "P \<in> set Ps" for a Ps P
    using store_inv_probe [OF i that] n by blast
  then show ?thesis using r c n by blast
qed

theorem filter_containment_witness:
  "buildAddress2ProbeMap section_ex {0xBB} new_decoder = Some (True, decoded_ex) \<and>
   Data decoded_ex = length section_ex \<and>
   Address2ProbesMap decoded_ex 0x1000 = None \<and>
   (\<exists>P. Address2ProbesMap decoded_ex 0x1004 = Some [P] \<and> InlineTree P = 2 \<and>
      (\<exists>t. top_level_ancestor (Nodes decoded_ex) 2 t \<and> Guid (Nodes decoded_ex ! t) \<in> {0xBB}))"
proof -
  have ne: "{0xBB :: uint64_t} \<noteq> {}" by simp
  from filter_containment [OF section_ex_wire ne store_inv_new_decoder]
  obtain d' where a: "buildAddress2ProbeMap section_ex {0xBB} new_decoder = Some (True, d') \<and>
     Data d' = length section_ex \<and>
     (\<forall>a Ps P. Address2ProbesMap d' a = Some Ps \<longrightarrow> P \<in> set Ps \<longrightarrow>
        (\<exists>t. top_level_ancestor (Nodes d') (InlineTree P) t \<and> Guid (Nodes d' ! t) \<in> {0xBB})) \<and>
     (\<forall>n. 0 < n \<and> n < length (Nodes d') \<longrightarrow>
        (\<exists>t. top_level_ancestor (Nodes d') n t \<and> Guid (Nodes d' ! t) \<in> {0xBB}))" ..
  note r = a [THEN conjunct1]
  note c = a [THEN conjunct2, THEN conjunct1]
  note p = a [THEN conjunct2, THEN conjunct2, THEN conjunct1, rule_format]
  have d': "d' = decoded_ex" using r unfolding section_ex_decoded by simp
  let ?P = "\<lparr>Address = 0x1004, ProbeGuid = 0xCC, ProbeIndex = 2, ProbeType = 0,
              ProbeAttributes = 0, InlineTree = 2\<rparr>"
  have m: "Address2ProbesMap decoded_ex 0x1004 = Some [?P]"
    by (simp add: decoded_ex_def)
  have z: "Address2ProbesMap decoded_ex 0x1000 = None"
    by (simp add: decoded_ex_def)
  have "?P \<in> set [?P]" by simp
  from p [unfolded d', OF m this]
  have t: "\<exists>t. top_level_ancestor (Nodes decoded_ex) 2 t \<and> Guid (Nodes decoded_ex ! t) \<in> {0xBB}"
    by simp
  have "\<exists>P. Address2ProbesMap decoded_ex 0x1004 = Some [P] \<and> InlineTree P = 2 \<and>
      (\<exists>t. top_level_ancestor (Nodes decoded_ex) 2 t \<and> Guid (Nodes decoded_ex ! t) \<in> {0xBB})"
    using m t by (intro exI [of _ ?P] conjI) simp_all
  then show ?thesis using r c z unfolding d' by (intro conjI)
qed

subsection \<open>The results of the section builds\<close>

lemma readFuncDesc_bytes:
  assumes r: "remaining d = guid @ hash @ name_size @ name @ rest" and le: "Data d \<le> End d"
    and g: "length guid = 8" and h: "length hash = 8" and s: "uleb32 name_size"
    and n: "length name = fst (decodeULEB128 name_size)"
  shows "\<exists>d'. readFuncDesc d = (True, d') \<and> consumes (guid @ hash @ name_size @ name) d d'"
proof -
  let ?d1 = "d\<lparr>Data := Data d + length guid\<rparr>"
  let ?d2 = "?d1\<lparr>Data := Data ?d1 + length hash\<rparr>"
  let ?d3 = "?d2\<lparr>Data := Data ?d2 + length name_size\<rparr>"
  let ?d4 = "?d3\<lparr>Data := Data ?d3 + length name\<rparr>"
  have g': "length guid = LENGTH(64) div 8" and h': "length hash = LENGTH(64) div 8"
    using g h by simp_all
  have 1: "readUnencodedNumber d = (Some (readNext_le guid :: uint64_t), ?d1)"
    using r le g' by (rule readUnencodedNumber_bytes)
  have c1: "consumes guid d ?d1" by (rule consumes_Data)
  note r1 = consumes_remaining [OF r le c1]
  have 2: "readUnencodedNumber ?d1 = (Some (readNext_le hash :: uint64_t), ?d2)"
    using r1 h' by (rule readUnencodedNumber_bytes)
  have c2: "consumes hash ?d1 ?d2" by (rule consumes_Data)
  note r2 = consumes_remaining [OF r1 c2]
  have 3: "readUnsignedNumber ?d2 = (Some (of_nat (fst (decodeULEB128 name_size)) :: uint32_t), ?d3)"
    using r2 s by (rule readUnsignedNumber_bytes)
  have c3: "consumes name_size ?d2 ?d3" by (rule consumes_Data)
  note r3 = consumes_remaining [OF r2 c3]
  have 4: "readString (length name) ?d3 = (Some name, ?d4)"
    using r3 by (rule readString_bytes)
  have c4: "consumes name ?d3 ?d4" by (rule consumes_Data)
  have c: "consumes (guid @ hash @ name_size @ name) d ?d4"
    using c1 c2 c3 c4 by (blast intro: consumes_append)
  have u: "unat (of_nat (fst (decodeULEB128 name_size)) :: uint32_t) = length name"
    using unat_uleb32 [OF s] n by simp
  obtain d' where "readFuncDesc d = (True, d')" and "Buf d' = Buf ?d4" "Data d' = Data ?d4"
    "End d' = End ?d4"
    using 1 2 3 4 u by (simp add: readFuncDesc_def)
  then show ?thesis using c by (auto simp: consumes_def)
qed

lemma desc_section_loop:
  "desc_section bs \<Longrightarrow> remaining d = bs \<Longrightarrow> Data d \<le> End d \<Longrightarrow> End d \<le> length (Buf d) \<Longrightarrow>
     \<exists>d'. buildGUID2FuncDescMap_loop d = (True, d') \<and> Data d' = End d' \<and> End d' = End d"
proof (induction bs arbitrary: d rule: desc_section.induct)
  case no_desc
  have "\<not> Data d < End d" using remaining_Nil [OF no_desc(1,3)] by simp
  then show ?case using no_desc(2) by simp
next
  case (desc guid hash name_size name rest)
  obtain d1 where 1: "readFuncDesc d = (True, d1)"
    and c1: "consumes (guid @ hash @ name_size @ name) d d1"
    using readFuncDesc_bytes [OF _ desc.prems(2) desc.hyps(1-4), of rest] desc.prems(1) by auto
  have r: "remaining d = (guid @ hash @ name_size @ name) @ rest" using desc.prems(1) by simp
  note r1 = consumes_remaining [OF r desc.prems(2) c1]
  have e1: "End d1 \<le> length (Buf d1)" "End d1 = End d"
    using c1 desc.prems(3) by (simp_all add: consumes_def)
  obtain d' where 2: "buildGUID2FuncDescMap_loop d1 = (True, d')"
    and p: "Data d' = End d'" "End d' = End d1"
    using desc.IH [OF r1 e1(1)] by blast
  have lt: "Data d < End d"
    using remaining_length [OF r desc.prems(2)] desc.hyps(1) by simp
  have "buildGUID2FuncDescMap_loop d = (True, d')"
    using lt 1 2 by (subst buildGUID2FuncDescMap_loop.simps) simp
  then show ?case using p e1(2) by simp
qed

text \<open>The bytes a successful read has consumed.\<close>

lemma remaining_split:
  assumes "Data d + n \<le> End d" and "End d \<le> length (Buf d)"
  shows "remaining d = take n (remaining d) @ remaining (d\<lparr>Data := Data d + n\<rparr>)"
    and "length (take n (remaining d)) = n"
    and "take n (remaining d) = take n (drop (Data d) (Buf d))"
proof -
  have l: "n \<le> length (remaining d)" using assms length_remaining [OF assms(2)] by simp
  then show 2: "length (take n (remaining d)) = n" by simp
  have "remaining d = take n (remaining d) @ drop n (remaining d)" by simp
  from remaining_advance [of d "take n (remaining d)" "drop n (remaining d)", OF this]
  have "remaining (d\<lparr>Data := Data d + n\<rparr>) = drop n (remaining d)" using 2 by simp
  then show "remaining d = take n (remaining d) @ remaining (d\<lparr>Data := Data d + n\<rparr>)" by simp
  have "remaining d = take n (remaining d) @ drop n (remaining d)" by simp
  from remaining_take [OF this] assms(1) 2
  show "take n (remaining d) = take n (drop (Data d) (Buf d))" by simp
qed

lemma readUnencodedNumber_conv:
  assumes "readUnencodedNumber d = (Some (v :: 'a::len word), d')" and "End d \<le> length (Buf d)"
  shows "\<exists>bs. length bs = LENGTH('a) div 8 \<and> remaining d = bs @ remaining d' \<and> consumes bs d d'"
proof -
  let ?n = "LENGTH('a) div 8"
  have e: "d' = d\<lparr>Data := Data d + ?n\<rparr>" "Data d + ?n \<le> End d"
    using readUnencodedNumber_Some [OF assms(1)] by simp_all
  note s = remaining_split [OF e(2) assms(2)]
  show ?thesis
    using s(1,2) unfolding e(1)
    by (intro exI [of _ "take ?n (remaining d)"]) (simp add: consumes_def)
qed

lemma readString_conv:
  assumes "readString n d = (Some s, d')" and "End d \<le> length (Buf d)"
  shows "\<exists>bs. length bs = n \<and> remaining d = bs @ remaining d' \<and> consumes bs d d'"
proof -
  have e: "d' = d\<lparr>Data := Data d + n\<rparr>" "Data d + n \<le> End d"
    using assms(1) by (auto simp: readString_def Let_def split: if_splits)
  note s = remaining_split [OF e(2) assms(2)]
  show ?thesis
    using s(1,2) unfolding e(1)
    by (intro exI [of _ "take n (remaining d)"]) (simp add: consumes_def)
qed

lemma readUnsignedNumber_conv:
  assumes "readUnsignedNumber d = (Some (v :: uint32_t), d')" and "End d \<le> length (Buf d)"
  shows "\<exists>bs. uleb32 bs \<and> v = of_nat (fst (decodeULEB128 bs)) \<and> remaining d = bs @ remaining d' \<and>
           consumes bs d d'"
proof -
  obtain Val n where dc: "decodeULEB128 (remaining d) = (Val, n)"
    by (cases "decodeULEB128 (remaining d)")
  have e: "Val \<le> 2 ^ 32 - 1" "Data d + n \<le> End d" "v = of_nat Val"
    "d' = d\<lparr>Data := Data d + n\<rparr>"
    using assms(1) dc by (auto simp: readUnsignedNumber_def remaining_def split: if_splits)
  note s = remaining_split [OF e(2) assms(2)]
  have "n \<le> length (remaining d)" using e(2) length_remaining [OF assms(2)] by simp
  from decodeULEB128_take [OF dc this]
  have "uleb32 (take n (remaining d))" "fst (decodeULEB128 (take n (remaining d))) = Val"
    using e(1) by (simp_all add: uleb32_def)
  then show ?thesis
    using s(1,2) e(3) unfolding e(4)
    by (intro exI [of _ "take n (remaining d)"]) (simp add: consumes_def)
qed

lemma readFuncDesc_conv:
  assumes a: "readFuncDesc d = (True, d')" and le: "Data d \<le> End d"
    and b: "End d \<le> length (Buf d)"
  shows "\<exists>guid hash name_size name. remaining d = guid @ hash @ name_size @ name @ remaining d' \<and>
           length guid = 8 \<and> length hash = 8 \<and> uleb32 name_size \<and>
           length name = fst (decodeULEB128 name_size) \<and>
           consumes (guid @ hash @ name_size @ name) d d'"
proof -
  obtain r1 d1 where 1: "(readUnencodedNumber d :: uint64_t option \<times> _) = (r1, d1)"
    by (cases "readUnencodedNumber d :: uint64_t option \<times> _")
  obtain r2 d2 where 2: "(readUnencodedNumber d1 :: uint64_t option \<times> _) = (r2, d2)"
    by (cases "readUnencodedNumber d1 :: uint64_t option \<times> _")
  obtain r3 d3 where 3: "(readUnsignedNumber d2 :: uint32_t option \<times> _) = (r3, d3)"
    by (cases "readUnsignedNumber d2 :: uint32_t option \<times> _")
  from a 1 obtain GUID where g: "r1 = Some GUID"
    by (cases r1) (auto simp: readFuncDesc_def)
  from a 1 2 g obtain Hash where h: "r2 = Some Hash"
    by (cases r2) (auto simp: readFuncDesc_def)
  from a 1 2 3 g h obtain NameSize where n: "r3 = Some NameSize"
    by (cases r3) (auto simp: readFuncDesc_def)
  obtain r4 d4 where 4: "readString (unat NameSize) d3 = (r4, d4)"
    by (cases "readString (unat NameSize) d3")
  from a 1 2 3 4 g h n obtain Name where m: "r4 = Some Name"
    by (cases r4) (auto simp: readFuncDesc_def)
  have d': "Buf d' = Buf d4" "Data d' = Data d4" "End d' = End d4"
    using a 1 2 3 4 g h n m by (auto simp: readFuncDesc_def)
  then have rd: "remaining d' = remaining d4" by (simp add: remaining_def)
  obtain guid where c1: "length guid = 8" "remaining d = guid @ remaining d1" "consumes guid d d1"
    using readUnencodedNumber_conv [OF 1 [unfolded g] b] by auto
  have b1: "End d1 \<le> length (Buf d1)" using c1(3) b by (simp add: consumes_def)
  obtain hash where c2: "length hash = 8" "remaining d1 = hash @ remaining d2" "consumes hash d1 d2"
    using readUnencodedNumber_conv [OF 2 [unfolded h] b1] by auto
  have b2: "End d2 \<le> length (Buf d2)" using c2(3) b1 by (simp add: consumes_def)
  obtain name_size where c3: "uleb32 name_size" "NameSize = of_nat (fst (decodeULEB128 name_size))"
    "remaining d2 = name_size @ remaining d3" "consumes name_size d2 d3"
    using readUnsignedNumber_conv [OF 3 [unfolded n] b2] by auto
  have b3: "End d3 \<le> length (Buf d3)" using c3(4) b2 by (simp add: consumes_def)
  obtain name where c4: "length name = unat NameSize" "remaining d3 = name @ remaining d4"
    "consumes name d3 d4"
    using readString_conv [OF 4 [unfolded m] b3] by auto
  have "consumes (guid @ hash @ name_size @ name) d d4"
    using c1(3) c2(3) c3(4) c4(3) by (blast intro: consumes_append)
  then have "consumes (guid @ hash @ name_size @ name) d d'"
    using d' by (simp add: consumes_def)
  moreover have "remaining d = guid @ hash @ name_size @ name @ remaining d'"
    using c1(2) c2(2) c3(3) c4(2) rd by simp
  moreover have "length name = fst (decodeULEB128 name_size)"
    using c4(1) c3(2) unat_uleb32 [OF c3(1)] by simp
  ultimately show ?thesis using c1(1) c2(1) c3(1) by blast
qed

lemma loop_desc_section:
  "buildGUID2FuncDescMap_loop d = (True, d') \<Longrightarrow> Data d \<le> End d \<Longrightarrow> End d \<le> length (Buf d) \<Longrightarrow>
     desc_section (remaining d)"
proof (induction d rule: buildGUID2FuncDescMap_loop.induct)
  case (1 d)
  show ?case
  proof (cases "Data d < End d")
    case False
    then have "remaining d = []" by (simp add: remaining_def)
    then show ?thesis by (simp add: desc_section.no_desc)
  next
    case True
    obtain ok d1 where r: "readFuncDesc d = (ok, d1)" by (cases "readFuncDesc d")
    have ok: ok
      using "1.prems"(1) True r by (subst (asm) buildGUID2FuncDescMap_loop.simps) (auto split: if_splits)
    have l: "buildGUID2FuncDescMap_loop d1 = (True, d')"
      using "1.prems"(1) True r ok by (subst (asm) buildGUID2FuncDescMap_loop.simps) simp
    obtain guid hash name_size name where
      c: "remaining d = guid @ hash @ name_size @ name @ remaining d1"
        "length guid = 8" "length hash = 8" "uleb32 name_size"
        "length name = fst (decodeULEB128 name_size)"
        "consumes (guid @ hash @ name_size @ name) d d1"
      using readFuncDesc_conv [OF r [unfolded eqTrueI [OF ok]] "1.prems"(2,3)] by blast
    have r': "remaining d = (guid @ hash @ name_size @ name) @ remaining d1" using c(1) by simp
    note r1 = consumes_remaining [OF r' "1.prems"(2) c(6)]
    have e1: "End d1 \<le> length (Buf d1)" using c(6) "1.prems"(3) by (simp add: consumes_def)
    have "desc_section (remaining d1)"
      using "1.IH" [OF True r [symmetric] ok l r1(2) e1] .
    then show ?thesis
      unfolding c(1) using c(2-5) by (intro desc_section.desc)
  qed
qed

lemma advances_readFuncDesc: "advances d (snd (readFuncDesc d))"
proof -
  obtain r1 d1 where 1: "(readUnencodedNumber d :: uint64_t option \<times> _) = (r1, d1)"
    by (cases "readUnencodedNumber d :: uint64_t option \<times> _")
  obtain r2 d2 where 2: "(readUnencodedNumber d1 :: uint64_t option \<times> _) = (r2, d2)"
    by (cases "readUnencodedNumber d1 :: uint64_t option \<times> _")
  obtain r3 d3 where 3: "(readUnsignedNumber d2 :: uint32_t option \<times> _) = (r3, d3)"
    by (cases "readUnsignedNumber d2 :: uint32_t option \<times> _")
  have a1: "advances d d1" using advances_readUnencodedNumber [of d, where 'a = 64] 1 by simp
  have a2: "advances d1 d2" using advances_readUnencodedNumber [of d1, where 'a = 64] 2 by simp
  have a3: "advances d2 d3" using advances_readUnsignedNumber [of d2, where 'a = 32] 3 by simp
  note a12 = advances_trans [OF a1 a2]
  note a13 = advances_trans [OF a12 a3]
  show ?thesis
  proof (cases r1)
    case None
    then show ?thesis using 1 a1 by (simp add: readFuncDesc_def)
  next
    case (Some GUID)
    note g = this
    show ?thesis
    proof (cases r2)
      case None
      then show ?thesis using 1 2 g a12 by (simp add: readFuncDesc_def)
    next
      case (Some Hash)
      note h = this
      show ?thesis
      proof (cases r3)
        case None
        then show ?thesis using 1 2 3 g h a13 by (simp add: readFuncDesc_def)
      next
        case (Some NameSize)
        obtain r4 d4 where 4: "readString (unat NameSize) d3 = (r4, d4)"
          by (cases "readString (unat NameSize) d3")
        have a4: "advances d d4"
          using advances_trans [OF a13 advances_readString [of d3 "unat NameSize"]] 4 by simp
        show ?thesis
        proof (cases r4)
          case None
          then show ?thesis using 1 2 3 4 g h Some a4 by (simp add: readFuncDesc_def)
        next
          case (Some Name)
          then have "advances d4 (snd (readFuncDesc d))"
            using 1 2 3 4 g h \<open>r3 = Some NameSize\<close> by (simp add: readFuncDesc_def advances_def)
          with a4 show ?thesis by (rule advances_trans)
        qed
      qed
    qed
  qed
qed

lemma buildGUID2FuncDescMap_loop_cursor:
  "Data d \<le> End d \<Longrightarrow>
     End (snd (buildGUID2FuncDescMap_loop d)) = End d \<and>
     Data (snd (buildGUID2FuncDescMap_loop d)) \<le> End d \<and>
     (fst (buildGUID2FuncDescMap_loop d) \<longrightarrow> Data (snd (buildGUID2FuncDescMap_loop d)) = End d)"
proof (induction d rule: buildGUID2FuncDescMap_loop.induct)
  case (1 d)
  note e = buildGUID2FuncDescMap_loop.simps [of d]
  show ?case
  proof (cases "Data d < End d")
    case False
    then show ?thesis using "1.prems" by (subst (1 2 3 4) e) simp
  next
    case True
    obtain ok d1 where r: "readFuncDesc d = (ok, d1)" by (cases "readFuncDesc d")
    have a: "advances d d1" using advances_readFuncDesc [of d] r by simp
    then have b: "End d1 = End d" "Data d1 \<le> End d1"
      using "1.prems" by (auto simp: advances_def)
    show ?thesis
    proof (cases ok)
      case False
      then show ?thesis using True r b by (subst (1 2 3 4) e) simp
    next
      case ok: True
      from "1.IH" [OF True r [symmetric] ok b(2)] show ?thesis
        using True r ok b(1) by (subst (1 2 3 4) e) simp
    qed
  qed
qed

lemma buildAddress2ProbeMap_loop_End:
  "buildAddress2ProbeMap_loop F LastAddr d = Some d' \<Longrightarrow> End d' = End d"
proof (induction F LastAddr d d' rule: buildAddress2ProbeMap_loop.raw_induct [rotated, consumes 1])
  case (1 loop F LastAddr d d')
  show ?case
  proof (cases "Data d < End d")
    case False
    then show ?thesis using 1(2) by simp
  next
    case True
    obtain ok la d1 where r: "buildAddress2ProbeMap_rec (Some DummyInlineRoot) LastAddr F d = (ok, la, d1)"
      by (cases "buildAddress2ProbeMap_rec (Some DummyInlineRoot) LastAddr F d")
    have "advances d d1"
      using advances_buildAddress2ProbeMap_rec [of d "Some DummyInlineRoot" LastAddr F] r by simp
    moreover have "loop F la d1 = Some d'" using 1(2) True r by simp
    ultimately show ?thesis using 1(1) [of F la d1 d'] by (simp add: advances_def)
  qed
qed

lemma desc_section_iff:
  "fst (buildGUID2FuncDescMap_loop (start_at Start d)) \<longleftrightarrow> desc_section Start"
proof
  let ?s = "start_at Start d"
  have s: "remaining ?s = Start" "Data ?s \<le> End ?s" "End ?s \<le> length (Buf ?s)"
    by (simp_all add: start_at_def remaining_def)
  show "desc_section Start" if "fst (buildGUID2FuncDescMap_loop ?s)"
  proof -
    have "buildGUID2FuncDescMap_loop ?s = (True, snd (buildGUID2FuncDescMap_loop ?s))"
      using that by (cases "buildGUID2FuncDescMap_loop ?s") simp
    from loop_desc_section [OF this s(2,3)] show ?thesis unfolding s(1) .
  qed
  show "fst (buildGUID2FuncDescMap_loop ?s)" if "desc_section Start"
    using desc_section_loop [OF that s] by auto
qed

text \<open>
  C1, as the specification states it, fails. The descriptor section \<open>desc_cut_ex\<close> ends
  after the GUID of its record: \<open>buildGUID2FuncDescMap\<close> returns false with the cursor at
  the end of the buffer, not before it. The probe section \<open>probe_cut_ex\<close> ends inside its
  only probe record: the recursive parse returns false, and \<open>buildAddress2ProbeMap\<close>
  returns true.
\<close>

theorem section_build_failure_counterexample:
  "(\<exists>d'. buildGUID2FuncDescMap desc_cut_ex new_decoder = Some (False, d') \<and>
         Data d' = length desc_cut_ex) \<and>
   \<not> fst (buildAddress2ProbeMap_rec (Some DummyInlineRoot) 0 {} (start_at probe_cut_ex new_decoder)) \<and>
   (\<exists>d'. buildAddress2ProbeMap probe_cut_ex {} new_decoder = Some (True, d'))"
proof -
  have 1: "buildGUID2FuncDescMap_loop (start_at desc_cut_ex new_decoder) =
      (False, (start_at desc_cut_ex new_decoder)\<lparr>Data := 8\<rparr>)"
    by (subst buildGUID2FuncDescMap_loop.simps)
      (simp add: desc_cut_ex_def readFuncDesc_def start_at_def new_decoder_def
        readUnencodedNumber_def)
  obtain la d1 where 2: "buildAddress2ProbeMap_rec (Some DummyInlineRoot) 0 {}
      (start_at probe_cut_ex new_decoder) = (False, la, d1)" and d1: "Data d1 = 11" "End d1 = 11"
    by (simp add: probe_cut_ex_def decode_eval)
  have "buildAddress2ProbeMap_loop {} la d1 = Some d1"
    using d1 by (subst buildAddress2ProbeMap_loop.simps) simp
  then have "buildAddress2ProbeMap_loop {} 0 (start_at probe_cut_ex new_decoder) = Some d1"
    using 2 by (subst buildAddress2ProbeMap_loop.simps) (simp add: start_at_def probe_cut_ex_def)
  then have 3: "buildAddress2ProbeMap probe_cut_ex {} new_decoder = Some (True, d1)"
    using d1 by (simp add: buildAddress2ProbeMap_def)
  show ?thesis
    using 1 2 3 by (simp add: buildGUID2FuncDescMap_def desc_cut_ex_def)
qed

text \<open>
  C1, amended. \<open>buildGUID2FuncDescMap\<close> always returns, and it returns true exactly when
  its input is a sequence of complete descriptor records, that is when no read runs
  over the end of the buffer and every name size fits 32 bits. When it returns false
  the cursor is at or before the end of the buffer; when it returns true the cursor is
  at the end. When \<open>buildAddress2ProbeMap\<close> returns true the cursor is at the end of the
  buffer, and on a well-formed probe section, started from a well-formed store, it
  returns true.
\<close>

theorem section_build_results:
  "(\<exists>ok d'. buildGUID2FuncDescMap Start d = Some (ok, d') \<and> (ok \<longleftrightarrow> desc_section Start) \<and>
        Data d' \<le> length Start \<and> (ok \<longrightarrow> Data d' = length Start)) \<and>
   (\<forall>d'. buildAddress2ProbeMap Start F d = Some (True, d') \<longrightarrow> Data d' = length Start) \<and>
   (wire_section 0 Start recs \<longrightarrow> store_inv F d \<longrightarrow>
      (\<exists>d'. buildAddress2ProbeMap Start F d = Some (True, d')))"
proof (intro conjI)
  let ?s = "start_at Start d"
  obtain ok d' where l: "buildGUID2FuncDescMap_loop ?s = (ok, d')"
    by (cases "buildGUID2FuncDescMap_loop ?s")
  have c: "End d' = length Start" "Data d' \<le> length Start" "ok \<longrightarrow> Data d' = length Start"
    using buildGUID2FuncDescMap_loop_cursor [of ?s] unfolding l by (simp_all add: start_at_def)
  have i: "ok \<longleftrightarrow> desc_section Start"
    using desc_section_iff [of Start d] unfolding l by simp
  have "buildGUID2FuncDescMap Start d = Some (ok, d')"
    using c unfolding buildGUID2FuncDescMap_def l by (cases ok) simp_all
  then show "\<exists>ok d'. buildGUID2FuncDescMap Start d = Some (ok, d') \<and> (ok \<longleftrightarrow> desc_section Start) \<and>
        Data d' \<le> length Start \<and> (ok \<longrightarrow> Data d' = length Start)"
    using c i by blast
  show "\<forall>d'. buildAddress2ProbeMap Start F d = Some (True, d') \<longrightarrow> Data d' = length Start"
  proof (intro allI impI)
    fix d' assume a: "buildAddress2ProbeMap Start F d = Some (True, d')"
    then have "buildAddress2ProbeMap_loop F 0 ?s = Some d'" "Data d' = End d'"
      by (auto simp: buildAddress2ProbeMap_def split: option.splits if_splits)
    then show "Data d' = length Start"
      using buildAddress2ProbeMap_loop_End [of F 0 ?s d'] by (simp add: start_at_def)
  qed
  show "wire_section 0 Start recs \<longrightarrow> store_inv F d \<longrightarrow>
      (\<exists>d'. buildAddress2ProbeMap Start F d = Some (True, d'))"
    using wire_section_decodes [of Start recs F d] by blast
qed

lemma desc_ex_well_formed: "desc_section desc_ex"
proof -
  have u: "uleb32 [3]" by (simp add: uleb32_def is_leb128_def)
  have "desc_section ([0xAA, 0, 0, 0, 0, 0, 0, 0] @ [0x11, 0, 0, 0, 0, 0, 0, 0] @ [3] @
      [0x66, 0x6f, 0x6f] @ [])"
    using u by (intro desc_section.intros) simp_all
  then show ?thesis by (simp add: desc_ex_def)
qed

lemma desc_section_length: "desc_section bs \<Longrightarrow> bs = [] \<or> 16 \<le> length bs"
  by (erule desc_section.cases) simp_all

theorem section_build_results_witness:
  "(\<exists>d'. buildGUID2FuncDescMap desc_ex new_decoder = Some (True, d') \<and> Data d' = length desc_ex) \<and>
   (\<exists>d'. buildGUID2FuncDescMap desc_cut_ex new_decoder = Some (False, d') \<and>
         Data d' \<le> length desc_cut_ex) \<and>
   (\<exists>d'. buildAddress2ProbeMap section_ex {0xBB} new_decoder = Some (True, d') \<and>
         Data d' = length section_ex)"
proof -
  have n: "\<not> desc_section desc_cut_ex"
    using desc_section_length [of desc_cut_ex] by (auto simp: desc_cut_ex_def)
  note t1 = section_build_results [of desc_ex new_decoder, THEN conjunct1]
  then obtain ok1 d1 where a1: "buildGUID2FuncDescMap desc_ex new_decoder = Some (ok1, d1)"
    "ok1 \<longleftrightarrow> desc_section desc_ex" "ok1 \<longrightarrow> Data d1 = length desc_ex"
    by (elim exE conjE)
  have 1: "\<exists>d'. buildGUID2FuncDescMap desc_ex new_decoder = Some (True, d') \<and>
      Data d' = length desc_ex"
    using a1 desc_ex_well_formed by (intro exI [of _ d1]) simp
  note t2 = section_build_results [of desc_cut_ex new_decoder, THEN conjunct1]
  then obtain ok2 d2 where a2: "buildGUID2FuncDescMap desc_cut_ex new_decoder = Some (ok2, d2)"
    "ok2 \<longleftrightarrow> desc_section desc_cut_ex" "Data d2 \<le> length desc_cut_ex"
    by (elim exE conjE)
  have 2: "\<exists>d'. buildGUID2FuncDescMap desc_cut_ex new_decoder = Some (False, d') \<and>
         Data d' \<le> length desc_cut_ex"
    using a2 n by (intro exI [of _ d2]) simp
  note t3 = section_build_results [where Start = section_ex and d = new_decoder and F = "{0xBB}"
      and recs = recs_ex, THEN conjunct2]
  from t3 [THEN conjunct2, THEN mp, THEN mp, OF section_ex_wire store_inv_new_decoder]
  obtain d3 where a3: "buildAddress2ProbeMap section_ex {0xBB} new_decoder = Some (True, d3)" ..
  from t3 [THEN conjunct1, rule_format, OF a3]
  have "Data d3 = length section_ex" .
  with a3 have 3: "\<exists>d'. buildAddress2ProbeMap section_ex {0xBB} new_decoder = Some (True, d') \<and>
         Data d' = length section_ex"
    by blast
  show ?thesis using 1 2 3 by (intro conjI)
qed

end
